theory Spec2Isabelle
  imports Main "HOL-Library.AList" "HOL-Library.Sublist"
begin

section \<open>The Go primitives that package subpub relies on\<close>

text \<open>
  The bus of \<^verbatim>\<open>subpub/subpub.go\<close> is a concurrent program: callers of Subscribe, Publish,
  Unsubscribe and Close, one worker goroutine per subscription and the goroutines that
  enqueue spawns all run interleaved. The model is an interleaving semantics: a state that
  holds the memory of the bus and the list of running activities, and a step function that
  runs one atomic action of one activity. A schedule is a list of events.

  A value of \<open>outcome\<close> says what a channel operation does when it is attempted:
  it proceeds, it has to wait, or it panics.
\<close>

type_synonym subject = string

text \<open>A \<^verbatim>\<open>*subscription\<close> pointer is the index of the subscription in the heap.\<close>

type_synonym sid = nat

datatype error = ErrClosed | CtxErr

datatype 'a outcome = Done 'a | Blocks | Panics

text \<open>
  A buffered channel \<^verbatim>\<open>chan interface{}\<close>: its buffer (oldest message first), its capacity
  and whether \<^verbatim>\<open>close\<close> was called on it. The message type \<open>'m\<close> stands for
  \<^verbatim>\<open>interface{}\<close>.
\<close>

record 'm chan =
  buf :: "'m list"
  cap :: nat
  shut :: bool

definition make_chan :: "nat \<Rightarrow> 'm chan" where
  "make_chan n = \<lparr>buf = [], cap = n, shut = False\<rparr>"

text \<open>
  \<^verbatim>\<open>c <- m\<close>: a send on a closed channel panics (also inside a \<^verbatim>\<open>select\<close>, also when the
  sender was already waiting when the channel was closed); otherwise it appends to the
  buffer when there is room and waits when there is none.
\<close>

definition chan_send :: "'m \<Rightarrow> 'm chan \<Rightarrow> 'm chan outcome" where
  "chan_send m c =
     (if shut c then Panics
      else if length (buf c) < cap c then Done (c\<lparr>buf := buf c @ [m]\<rparr>)
      else Blocks)"

text \<open>
  One iteration of \<^verbatim>\<open>for msg := range c\<close>: the oldest buffered message if there is one;
  the end of the loop (\<open>None\<close>) when the buffer is empty and the channel is closed;
  waiting otherwise.
\<close>

definition chan_recv :: "'m chan \<Rightarrow> ('m option \<times> 'm chan) outcome" where
  "chan_recv c =
     (case buf c of
        m # rest \<Rightarrow> Done (Some m, c\<lparr>buf := rest\<rparr>)
      | [] \<Rightarrow> if shut c then Done (None, c) else Blocks)"

text \<open>\<^verbatim>\<open>close(c)\<close>: closing a closed channel panics.\<close>

definition chan_close :: "'m chan \<Rightarrow> 'm chan outcome" where
  "chan_close c = (if shut c then Panics else Done (c\<lparr>shut := True\<rparr>))"

text \<open>
  \<^verbatim>\<open>sync.Once\<close>: not yet used, inside the function passed to \<^verbatim>\<open>Do\<close> (other callers of
  \<^verbatim>\<open>Do\<close> wait), or done.
\<close>

datatype once_state = Once_new | Once_running | Once_done


section \<open>The data of the bus\<close>

text \<open>
  \<^verbatim>\<open>type subscription struct\<close>. The field \<^verbatim>\<open>parent\<close> is left out: the model holds one bus.
  The handler \<^verbatim>\<open>cb\<close> is user code; it is represented by \<open>cb_calls\<close>, the messages it has
  been called with, in the order of the calls.

  The last two fields are history variables: no step reads them. \<open>accepted\<close> lists the
  calls of enqueue on this subscription in the order in which they took \<^verbatim>\<open>sendMu\<close>: the
  message, the index of the Publish activity that made the call, and the number of
  activities that existed at that moment (a logical time: every call of the API adds an
  activity). \<open>queued\<close> lists the messages that were put into the channel.
\<close>

record 'm subscription =
  subject :: subject
  ch :: "'m chan"
  cb_calls :: "'m list"
  once :: once_state
  sendMu :: bool
  accepted :: "('m \<times> nat \<times> nat) list"
  queued :: "'m list"

text \<open>
  What a finished activity returned. Unsubscribe returns nothing; \<open>Ret_Unsubscribe s\<close>
  records that the call on handle \<open>s\<close> has returned. \<open>Ret_go\<close> is the end of a goroutine.
\<close>

datatype ret =
    Ret_Subscribe "error + sid"
  | Ret_Publish "error option"
  | Ret_Unsubscribe sid
  | Ret_Close "error option"
  | Ret_go

text \<open>
  The calls of the API. Go iterates over a map in an unspecified order; a call of Close
  carries the order in which its loop over \<^verbatim>\<open>sp.subs\<close> visits the subjects.
\<close>

datatype 'm call =
    Call_Subscribe subject
  | Call_Publish subject 'm
  | Call_Unsubscribe sid
  | Call_Close "subject list"

text \<open>
  An activity is a goroutine together with the place in the code where it stands:
  \<^item> \<open>Called c\<close>: at the start of the called function;
  \<^item> \<open>Worker s\<close>: worker, at \<^verbatim>\<open>for msg := range s.ch\<close>;
  \<^item> \<open>Handling s m\<close>: worker, inside \<^verbatim>\<open>s.cb(msg)\<close>;
  \<^item> \<open>Publishing rest m\<close>: Publish, at the head of the loop over the rest of \<^verbatim>\<open>subsCopy\<close>;
  \<^item> \<open>Enqueuing s m rest\<close>: enqueue called from that loop, holding \<^verbatim>\<open>sendMu\<close>, at the
    \<^verbatim>\<open>select\<close>;
  \<^item> \<open>Sender s m\<close>: the goroutine of the \<^verbatim>\<open>default\<close> branch of enqueue, holding
    \<^verbatim>\<open>sendMu\<close>, at \<^verbatim>\<open>s.ch <- msg\<close>;
  \<^item> \<open>Unsubscribing s k\<close>: unsubscribe, inside \<^verbatim>\<open>once.Do\<close>, at \<^verbatim>\<open>close(s.ch)\<close>; \<open>k\<close> is
    \<open>None\<close> for a call of Unsubscribe and the rest of \<^verbatim>\<open>toClose\<close> for a call from Close;
  \<^item> \<open>Closing rest\<close>: Close, at the head of the loop over the rest of \<^verbatim>\<open>toClose\<close>;
  \<^item> \<open>Waiting\<close>: Close, at the final \<^verbatim>\<open>select\<close>;
  \<^item> \<open>Finished r\<close>: returned \<open>r\<close>.
\<close>

datatype 'm proc =
    Called "'m call"
  | Worker sid
  | Handling sid 'm
  | Publishing "sid list" 'm
  | Enqueuing sid 'm "sid list"
  | Sender sid 'm
  | Unsubscribing sid "sid list option"
  | Closing "sid list"
  | Waiting
  | Finished ret

text \<open>
  \<^verbatim>\<open>type subPub struct\<close> (fields \<open>subs\<close>, \<open>closed\<close>, \<open>wg\<close>), the subscriptions allocated
  so far and the activities. The map \<^verbatim>\<open>subs\<close> is an association list with one entry per
  key. The mutex \<^verbatim>\<open>mu\<close> is not a field: every critical section of \<^verbatim>\<open>mu\<close> is one step.
  The context that a caller passes to Close is named by the index of that call among the
  activities; \<open>fired\<close> lists the contexts whose \<^verbatim>\<open>Done()\<close> channel is closed (cancelled,
  or deadline expired).
\<close>

record 'm state =
  subs :: "(subject \<times> sid list) list"
  closed :: bool
  wg :: nat
  heap :: "'m subscription list"
  procs :: "'m proc list"
  fired :: "nat list"

datatype 'm result = Ok "'m state" | Blocked | Panic

text \<open>\<^verbatim>\<open>NewSubPub\<close>.\<close>

definition NewSubPub :: "'m state" where
  "NewSubPub = \<lparr>subs = [], closed = False, wg = 0, heap = [], procs = [], fired = []\<rparr>"

text \<open>\<^verbatim>\<open>m[subj]\<close> on a map of slices: reading a missing key yields the nil slice.\<close>

definition subs_of :: "(subject \<times> sid list) list \<Rightarrow> subject \<Rightarrow> sid list" where
  "subs_of m subj = (case map_of m subj of None \<Rightarrow> [] | Some l \<Rightarrow> l)"


section \<open>The operations of the bus, one definition per atomic step\<close>

subsection \<open>Subscribe and worker\<close>

text \<open>
  Subscribe runs under \<^verbatim>\<open>sp.mu.Lock()\<close> from its first line to its return, so it is one
  step of activity \<open>i\<close>. \<^verbatim>\<open>go sub.worker()\<close> adds the worker to the activities.
\<close>

definition Subscribe :: "nat \<Rightarrow> subject \<Rightarrow> 'm state \<Rightarrow> 'm result" where
  "Subscribe i subj \<sigma> =
     (if closed \<sigma> then
        Ok (\<sigma>\<lparr>procs := (procs \<sigma>)[i := Finished (Ret_Subscribe (Inl ErrClosed))]\<rparr>)
      else
        let sub = length (heap \<sigma>) in
        Ok (\<sigma>\<lparr>heap := heap \<sigma> @
                  [\<lparr>subject = subj, ch = make_chan 64, cb_calls = [], once = Once_new,
                    sendMu = False, accepted = [], queued = []\<rparr>],
               subs := AList.update subj (subs_of (subs \<sigma>) subj @ [sub]) (subs \<sigma>),
               wg := wg \<sigma> + 1,
               procs := (procs \<sigma>)[i := Finished (Ret_Subscribe (Inr sub))] @ [Worker sub]\<rparr>))"

text \<open>
  worker, one iteration of \<^verbatim>\<open>for msg := range s.ch\<close>: take a message and call the handler
  with it, or leave the loop and run the deferred \<^verbatim>\<open>wg.Done()\<close>, which panics on a
  counter that is zero.
\<close>

definition worker :: "nat \<Rightarrow> sid \<Rightarrow> 'm state \<Rightarrow> 'm result" where
  "worker i s \<sigma> =
     (let sub = heap \<sigma> ! s in
      case chan_recv (ch sub) of
        Blocks \<Rightarrow> Blocked
      | Panics \<Rightarrow> Panic
      | Done (Some m, c) \<Rightarrow>
          Ok (\<sigma>\<lparr>heap := (heap \<sigma>)[s := sub\<lparr>ch := c, cb_calls := cb_calls sub @ [m]\<rparr>],
                 procs := (procs \<sigma>)[i := Handling s m]\<rparr>)
      | Done (None, c) \<Rightarrow>
          if wg \<sigma> = 0 then Panic
          else Ok (\<sigma>\<lparr>wg := wg \<sigma> - 1, procs := (procs \<sigma>)[i := Finished Ret_go]\<rparr>))"

text \<open>The handler returns and the worker is back at the head of its loop.\<close>

definition worker_cb_returns :: "nat \<Rightarrow> sid \<Rightarrow> 'm state \<Rightarrow> 'm result" where
  "worker_cb_returns i s \<sigma> = Ok (\<sigma>\<lparr>procs := (procs \<sigma>)[i := Worker s]\<rparr>)"

subsection \<open>Publish and enqueue\<close>

text \<open>The section of Publish under \<^verbatim>\<open>sp.mu.RLock()\<close>: the check and the copy of the slice.\<close>

definition Publish :: "nat \<Rightarrow> subject \<Rightarrow> 'm \<Rightarrow> 'm state \<Rightarrow> 'm result" where
  "Publish i subj msg \<sigma> =
     (if closed \<sigma> then
        Ok (\<sigma>\<lparr>procs := (procs \<sigma>)[i := Finished (Ret_Publish (Some ErrClosed))]\<rparr>)
      else
        let subsCopy = [] @ subs_of (subs \<sigma>) subj in
        Ok (\<sigma>\<lparr>procs := (procs \<sigma>)[i := Publishing subsCopy msg]\<rparr>))"

text \<open>
  enqueue, \<^verbatim>\<open>s.sendMu.Lock()\<close>: waits while the mutex is held. The history variable
  \<open>accepted\<close> records the call.
\<close>

definition enqueue :: "nat \<Rightarrow> sid \<Rightarrow> 'm \<Rightarrow> sid list \<Rightarrow> 'm state \<Rightarrow> 'm result" where
  "enqueue i s msg rest \<sigma> =
     (let sub = heap \<sigma> ! s in
      if sendMu sub then Blocked
      else Ok (\<sigma>\<lparr>heap := (heap \<sigma>)[s := sub\<lparr>sendMu := True,
                          accepted := accepted sub @ [(msg, i, length (procs \<sigma>))]\<rparr>],
                 procs := (procs \<sigma>)[i := Enqueuing s msg rest]\<rparr>))"

text \<open>
  enqueue, the \<^verbatim>\<open>select\<close> with a \<^verbatim>\<open>default\<close> branch: a send that does not wait. It runs in
  the goroutine of the caller of Publish, where nothing recovers from a panic. When the
  buffer is full the \<^verbatim>\<open>default\<close> branch starts the goroutine that will send, leaves
  \<^verbatim>\<open>sendMu\<close> locked and returns.
\<close>

definition enqueue_select :: "nat \<Rightarrow> sid \<Rightarrow> 'm \<Rightarrow> sid list \<Rightarrow> 'm state \<Rightarrow> 'm result" where
  "enqueue_select i s msg rest \<sigma> =
     (let sub = heap \<sigma> ! s in
      case chan_send msg (ch sub) of
        Panics \<Rightarrow> Panic
      | Done c \<Rightarrow>
          Ok (\<sigma>\<lparr>heap := (heap \<sigma>)[s := sub\<lparr>ch := c, sendMu := False,
                                            queued := queued sub @ [msg]\<rparr>],
                 procs := (procs \<sigma>)[i := Publishing rest msg]\<rparr>)
      | Blocks \<Rightarrow>
          Ok (\<sigma>\<lparr>procs := (procs \<sigma>)[i := Publishing rest msg] @ [Sender s msg]\<rparr>))"

text \<open>
  The goroutine started by enqueue, at \<^verbatim>\<open>s.ch <- msg\<close>: it waits while the buffer is full.
  When the channel is closed the send panics, the deferred \<^verbatim>\<open>recover\<close> swallows the panic
  and the message is dropped. Either way the deferred \<^verbatim>\<open>s.sendMu.Unlock()\<close> runs.
\<close>

definition enqueue_go :: "nat \<Rightarrow> sid \<Rightarrow> 'm \<Rightarrow> 'm state \<Rightarrow> 'm result" where
  "enqueue_go i s msg \<sigma> =
     (let sub = heap \<sigma> ! s in
      case chan_send msg (ch sub) of
        Blocks \<Rightarrow> Blocked
      | Panics \<Rightarrow>
          Ok (\<sigma>\<lparr>heap := (heap \<sigma>)[s := sub\<lparr>sendMu := False\<rparr>],
                 procs := (procs \<sigma>)[i := Finished Ret_go]\<rparr>)
      | Done c \<Rightarrow>
          Ok (\<sigma>\<lparr>heap := (heap \<sigma>)[s := sub\<lparr>ch := c, sendMu := False,
                                            queued := queued sub @ [msg]\<rparr>],
                 procs := (procs \<sigma>)[i := Finished Ret_go]\<rparr>))"

text \<open>Publish, the head of \<^verbatim>\<open>for _, sub := range subsCopy\<close>, and \<^verbatim>\<open>return nil\<close> after it.\<close>

definition Publish_range :: "nat \<Rightarrow> sid list \<Rightarrow> 'm \<Rightarrow> 'm state \<Rightarrow> 'm result" where
  "Publish_range i subsCopy msg \<sigma> =
     (case subsCopy of
        [] \<Rightarrow> Ok (\<sigma>\<lparr>procs := (procs \<sigma>)[i := Finished (Ret_Publish None)]\<rparr>)
      | s # rest \<Rightarrow> enqueue i s msg rest \<sigma>)"

subsection \<open>Unsubscribe\<close>

text \<open>The position of the first element equal to \<open>x\<close> (\<^verbatim>\<open>if v == s\<close> ... \<^verbatim>\<open>break\<close>).\<close>

fun first_index :: "'a \<Rightarrow> 'a list \<Rightarrow> nat option" where
  "first_index x [] = None"
| "first_index x (y # ys) = (if y = x then Some 0 else map_option Suc (first_index x ys))"

text \<open>
  The loop of unsubscribe over \<^verbatim>\<open>list\<close>: the last element overwrites the one found and the
  slice loses its last position.
\<close>

definition swap_remove :: "'a \<Rightarrow> 'a list \<Rightarrow> 'a list" where
  "swap_remove s list =
     (case first_index s list of
        None \<Rightarrow> list
      | Some i \<Rightarrow> butlast (list[i := last list]))"

text \<open>The section of unsubscribe under \<^verbatim>\<open>sp.mu.Lock()\<close>, on the map.\<close>

definition remove_sub :: "sid \<Rightarrow> subject \<Rightarrow> (subject \<times> sid list) list \<Rightarrow> (subject \<times> sid list) list" where
  "remove_sub s subj m =
     (case map_of m subj of
        None \<Rightarrow> m
      | Some list \<Rightarrow>
          let list' = swap_remove s list in
          if length list' = 0 then AList.delete subj m else AList.update subj list' m)"

text \<open>Where unsubscribe returns to: the caller of Unsubscribe, or the loop of Close.\<close>

definition resume :: "sid \<Rightarrow> sid list option \<Rightarrow> 'm proc" where
  "resume s k = (case k of None \<Rightarrow> Finished (Ret_Unsubscribe s) | Some rest \<Rightarrow> Closing rest)"

text \<open>
  unsubscribe, \<^verbatim>\<open>s.once.Do\<close> up to \<^verbatim>\<open>sp.mu.Unlock()\<close>: nothing happens when the Once is
  done, the caller waits while another activity is inside \<^verbatim>\<open>Do\<close>, and the first caller
  removes the subscription from the map.
\<close>

definition unsubscribe :: "nat \<Rightarrow> sid \<Rightarrow> sid list option \<Rightarrow> 'm state \<Rightarrow> 'm result" where
  "unsubscribe i s k \<sigma> =
     (let sub = heap \<sigma> ! s in
      case once sub of
        Once_done \<Rightarrow> Ok (\<sigma>\<lparr>procs := (procs \<sigma>)[i := resume s k]\<rparr>)
      | Once_running \<Rightarrow> Blocked
      | Once_new \<Rightarrow>
          Ok (\<sigma>\<lparr>heap := (heap \<sigma>)[s := sub\<lparr>once := Once_running\<rparr>],
                 subs := remove_sub s (subject sub) (subs \<sigma>),
                 procs := (procs \<sigma>)[i := Unsubscribing s k]\<rparr>))"

text \<open>unsubscribe, \<^verbatim>\<open>close(s.ch)\<close> and the end of \<^verbatim>\<open>once.Do\<close>.\<close>

definition unsubscribe_close :: "nat \<Rightarrow> sid \<Rightarrow> sid list option \<Rightarrow> 'm state \<Rightarrow> 'm result" where
  "unsubscribe_close i s k \<sigma> =
     (let sub = heap \<sigma> ! s in
      case chan_close (ch sub) of
        Done c \<Rightarrow>
          Ok (\<sigma>\<lparr>heap := (heap \<sigma>)[s := sub\<lparr>ch := c, once := Once_done\<rparr>],
                 procs := (procs \<sigma>)[i := resume s k]\<rparr>)
      | Blocks \<Rightarrow> Blocked
      | Panics \<Rightarrow> Panic)"

subsection \<open>Close\<close>

text \<open>
  The section of Close under \<^verbatim>\<open>sp.mu.Lock()\<close>. \<open>ord\<close> is the order in which the loop
  over the map visits the keys; an \<open>ord\<close> that is not an enumeration of the keys is
  replaced by the order of the association list.
\<close>

definition Close :: "nat \<Rightarrow> subject list \<Rightarrow> 'm state \<Rightarrow> 'm result" where
  "Close i ord \<sigma> =
     (if closed \<sigma> then
        Ok (\<sigma>\<lparr>procs := (procs \<sigma>)[i := Finished (Ret_Close (Some ErrClosed))]\<rparr>)
      else
        let keys = (if distinct ord \<and> set ord = set (map fst (subs \<sigma>)) then ord
                    else map fst (subs \<sigma>));
            toClose = concat (map (subs_of (subs \<sigma>)) keys)
        in Ok (\<sigma>\<lparr>closed := True, subs := [],
                  procs := (procs \<sigma>)[i := Closing toClose]\<rparr>))"

text \<open>
  Close, the head of \<^verbatim>\<open>for _, sub := range toClose\<close>; after the loop Close starts the
  goroutine that waits for \<^verbatim>\<open>wg\<close> and reaches its \<^verbatim>\<open>select\<close>.
\<close>

definition Close_range :: "nat \<Rightarrow> sid list \<Rightarrow> 'm state \<Rightarrow> 'm result" where
  "Close_range i toClose \<sigma> =
     (case toClose of
        [] \<Rightarrow> Ok (\<sigma>\<lparr>procs := (procs \<sigma>)[i := Waiting]\<rparr>)
      | s # rest \<Rightarrow> unsubscribe i s (Some rest) \<sigma>)"

text \<open>
  Close, the branch \<^verbatim>\<open>case <-done\<close> of the \<^verbatim>\<open>select\<close>: \<^verbatim>\<open>done\<close> is closed once
  \<^verbatim>\<open>sp.wg.Wait()\<close> has returned, that is once the counter is zero.
\<close>

definition Close_done :: "nat \<Rightarrow> 'm state \<Rightarrow> 'm result" where
  "Close_done i \<sigma> =
     (if wg \<sigma> = 0 then Ok (\<sigma>\<lparr>procs := (procs \<sigma>)[i := Finished (Ret_Close None)]\<rparr>)
      else Blocked)"

text \<open>
  Close, the branch \<^verbatim>\<open>case <-ctx.Done()\<close>: it can be taken once the context of the caller
  has fired, and Close then returns \<^verbatim>\<open>ctx.Err()\<close>. When both branches are ready the
  \<^verbatim>\<open>select\<close> of Go takes either.
\<close>

definition Close_ctx :: "nat \<Rightarrow> 'm state \<Rightarrow> 'm result" where
  "Close_ctx i \<sigma> =
     (if i \<in> set (fired \<sigma>) then
        Ok (\<sigma>\<lparr>procs := (procs \<sigma>)[i := Finished (Ret_Close (Some CtxErr))]\<rparr>)
      else Blocked)"


section \<open>Schedules\<close>

text \<open>
  An event is a call of the API by some client (a handle passed to Unsubscribe must be
  one that Subscribe returned), one step of activity \<open>i\<close>, the firing of the context of
  call \<open>i\<close> (which may happen at any time after the call was made), or the call of Close
  \<open>i\<close> taking the branch \<^verbatim>\<open>case <-ctx.Done()\<close> of its \<^verbatim>\<open>select\<close>; a step of a call of
  Close that stands at its \<^verbatim>\<open>select\<close> takes the branch \<^verbatim>\<open>case <-done\<close>. An event that
  cannot happen in the state yields \<open>Blocked\<close>.
\<close>

datatype 'm event = Call "'m call" | Sched nat | Cancel nat | Ctx_done nat

fun run :: "nat \<Rightarrow> 'm proc \<Rightarrow> 'm state \<Rightarrow> 'm result" where
  "run i (Called (Call_Subscribe subj)) \<sigma> = Subscribe i subj \<sigma>"
| "run i (Called (Call_Publish subj msg)) \<sigma> = Publish i subj msg \<sigma>"
| "run i (Called (Call_Unsubscribe s)) \<sigma> = unsubscribe i s None \<sigma>"
| "run i (Called (Call_Close ord)) \<sigma> = Close i ord \<sigma>"
| "run i (Worker s) \<sigma> = worker i s \<sigma>"
| "run i (Handling s m) \<sigma> = worker_cb_returns i s \<sigma>"
| "run i (Publishing subsCopy msg) \<sigma> = Publish_range i subsCopy msg \<sigma>"
| "run i (Enqueuing s msg rest) \<sigma> = enqueue_select i s msg rest \<sigma>"
| "run i (Sender s msg) \<sigma> = enqueue_go i s msg \<sigma>"
| "run i (Unsubscribing s k) \<sigma> = unsubscribe_close i s k \<sigma>"
| "run i (Closing toClose) \<sigma> = Close_range i toClose \<sigma>"
| "run i Waiting \<sigma> = Close_done i \<sigma>"
| "run i (Finished r) \<sigma> = Blocked"

fun valid_call :: "'m call \<Rightarrow> 'm state \<Rightarrow> bool" where
  "valid_call (Call_Unsubscribe s) \<sigma> = (s < length (heap \<sigma>))"
| "valid_call c \<sigma> = True"

fun step :: "'m event \<Rightarrow> 'm state \<Rightarrow> 'm result" where
  "step (Call c) \<sigma> =
     (if valid_call c \<sigma> then Ok (\<sigma>\<lparr>procs := procs \<sigma> @ [Called c]\<rparr>) else Blocked)"
| "step (Sched i) \<sigma> =
     (if i < length (procs \<sigma>) then run i (procs \<sigma> ! i) \<sigma> else Blocked)"
| "step (Cancel i) \<sigma> =
     (if i < length (procs \<sigma>) then Ok (\<sigma>\<lparr>fired := fired \<sigma> @ [i]\<rparr>) else Blocked)"
| "step (Ctx_done i) \<sigma> =
     (if i < length (procs \<sigma>) \<and> procs \<sigma> ! i = Waiting then Close_ctx i \<sigma> else Blocked)"

text \<open>A schedule runs from a state as long as its events can happen and nothing panics.\<close>

fun exec :: "'m event list \<Rightarrow> 'm state \<Rightarrow> 'm result" where
  "exec [] \<sigma> = Ok \<sigma>"
| "exec (e # es) \<sigma> =
     (case step e \<sigma> of Ok \<sigma>' \<Rightarrow> exec es \<sigma>' | Blocked \<Rightarrow> Blocked | Panic \<Rightarrow> Panic)"


section \<open>Definitions used to state the properties\<close>

text \<open>
  The two places from which unsubscribe is entered: a call of Unsubscribe, and the loop of
  Close standing before a subscription.
\<close>

fun entering :: "'m proc \<Rightarrow> (sid \<times> sid list option) option" where
  "entering (Called (Call_Unsubscribe s)) = Some (s, None)"
| "entering (Closing (s # rest)) = Some (s, Some rest)"
| "entering p = None"


text \<open>The subscriptions an activity refers to.\<close>

fun sids_of :: "'m proc \<Rightarrow> sid set" where
  "sids_of (Called (Call_Unsubscribe s)) = {s}"
| "sids_of (Called c) = {}"
| "sids_of (Worker s) = {s}"
| "sids_of (Handling s m) = {s}"
| "sids_of (Publishing rest m) = set rest"
| "sids_of (Enqueuing s m rest) = insert s (set rest)"
| "sids_of (Sender s m) = {s}"
| "sids_of (Unsubscribing s k) = insert s (case k of None \<Rightarrow> {} | Some rest \<Rightarrow> set rest)"
| "sids_of (Closing rest) = set rest"
| "sids_of Waiting = {}"
| "sids_of (Finished (Ret_Unsubscribe s)) = {s}"
| "sids_of (Finished (Ret_Subscribe (Inr s))) = {s}"
| "sids_of (Finished r) = {}"

text \<open>Every pointer held by an activity or stored in the map points into the heap.\<close>

definition wf :: "'m state \<Rightarrow> bool" where
  "wf \<sigma> \<longleftrightarrow>
     (\<forall>p \<in> set (procs \<sigma>). \<forall>s \<in> sids_of p. s < length (heap \<sigma>)) \<and>
     (\<forall>k. \<forall>s \<in> set (subs_of (subs \<sigma>) k). s < length (heap \<sigma>))"

text \<open>
  Counting activities: \<open>inside f s ps\<close> is the number of activities in \<open>ps\<close> that \<open>f\<close>
  relates to the subscription \<open>s\<close>.
\<close>

definition inside :: "('m proc \<Rightarrow> sid option) \<Rightarrow> sid \<Rightarrow> 'm proc list \<Rightarrow> nat" where
  "inside f s ps = length (filter (\<lambda>p. f p = Some s) ps)"

text \<open>The subscription whose channel an activity is about to close.\<close>

fun unsub_at :: "'m proc \<Rightarrow> sid option" where
  "unsub_at (Unsubscribing s k) = Some s"
| "unsub_at p = None"

text \<open>The handle on which a returned call of Unsubscribe was made.\<close>

fun unsub_returned :: "'m proc \<Rightarrow> sid option" where
  "unsub_returned (Finished (Ret_Unsubscribe s)) = Some s"
| "unsub_returned p = None"

text \<open>
  The Once of a subscription and its channel: one activity stands inside \<^verbatim>\<open>once.Do\<close> while
  the Once is running and none otherwise, the channel is closed exactly when the Once is
  done, and a call of Unsubscribe that has returned leaves the Once done.
\<close>

definition unsub_inv :: "'m state \<Rightarrow> bool" where
  "unsub_inv \<sigma> \<longleftrightarrow>
     (\<forall>s < length (heap \<sigma>). inside unsub_at s (procs \<sigma>) =
          (if once (heap \<sigma> ! s) = Once_running then 1 else 0)) \<and>
     (\<forall>s < length (heap \<sigma>). shut (ch (heap \<sigma> ! s)) \<longleftrightarrow> once (heap \<sigma> ! s) = Once_done) \<and>
     (\<forall>p \<in> set (procs \<sigma>). \<forall>s. unsub_returned p = Some s \<longrightarrow>
          once (heap \<sigma> ! s) = Once_done)"

text \<open>
  The map of the bus: one entry per subject and none with an empty slice; a closed bus has
  the nil map; no subscription occurs twice in a slice; a subscription in the slice of a
  subject was subscribed to that subject and its Once is unused; and, while the bus is
  open, every subscription whose Once is unused is in the slice of its subject.
\<close>

definition reg_inv :: "'m state \<Rightarrow> bool" where
  "reg_inv \<sigma> \<longleftrightarrow>
     distinct (map fst (subs \<sigma>)) \<and>
     (closed \<sigma> \<longrightarrow> subs \<sigma> = []) \<and>
     (\<forall>k. distinct (subs_of (subs \<sigma>) k)) \<and>
     (\<forall>k. \<forall>s \<in> set (subs_of (subs \<sigma>) k).
          subject (heap \<sigma> ! s) = k \<and> once (heap \<sigma> ! s) = Once_new) \<and>
     (\<not> closed \<sigma> \<longrightarrow> (\<forall>s < length (heap \<sigma>). once (heap \<sigma> ! s) = Once_new \<longrightarrow>
          s \<in> set (subs_of (subs \<sigma>) (subject (heap \<sigma> ! s))))) \<and>
     (\<forall>k. map_of (subs \<sigma>) k \<noteq> Some [])"

text \<open>
  The activity of the call of Close that found the bus open, from the end of its critical
  section on: in its loop, inside an unsubscribe called from the loop, at its \<^verbatim>\<open>select\<close>,
  or returned with \<^verbatim>\<open>nil\<close> or with the error of the context.
\<close>

fun closer :: "'m proc \<Rightarrow> bool" where
  "closer (Closing rest) = True"
| "closer (Unsubscribing s (Some rest)) = True"
| "closer Waiting = True"
| "closer (Finished (Ret_Close None)) = True"
| "closer (Finished (Ret_Close (Some CtxErr))) = True"
| "closer p = False"

text \<open>The subscriptions that the loop of Close has still to unsubscribe.\<close>

fun pending :: "'m proc \<Rightarrow> sid set" where
  "pending (Closing rest) = set rest"
| "pending (Unsubscribing s (Some rest)) = set rest"
| "pending p = {}"

text \<open>A call of Close that has returned, with any result.\<close>

fun Close_returned :: "'m proc \<Rightarrow> bool" where
  "Close_returned (Finished (Ret_Close r)) = True"
| "Close_returned p = False"

text \<open>
  Shutdown: there is one such activity when the bus is closed and none while it is open; a
  call of Close has returned only on a closed bus; and on a closed bus every subscription
  whose Once is still unused waits in the loop of Close.
\<close>

definition close_inv :: "'m state \<Rightarrow> bool" where
  "close_inv \<sigma> \<longleftrightarrow>
     length (filter closer (procs \<sigma>)) = (if closed \<sigma> then 1 else 0) \<and>
     (\<forall>p \<in> set (procs \<sigma>). Close_returned p \<longrightarrow> closed \<sigma>) \<and>
     (closed \<sigma> \<longrightarrow> (\<forall>s < length (heap \<sigma>). once (heap \<sigma> ! s) = Once_new \<longrightarrow>
          (\<exists>p \<in> set (procs \<sigma>). s \<in> pending p)))"

text \<open>The subscription a worker goroutine serves, while the goroutine is alive.\<close>

fun works_on :: "'m proc \<Rightarrow> sid option" where
  "works_on (Worker s) = Some s"
| "works_on (Handling s m) = Some s"
| "works_on p = None"

definition live :: "'m proc \<Rightarrow> bool" where
  "live p \<longleftrightarrow> works_on p \<noteq> None"

text \<open>
  The WaitGroup counts the workers that are alive, and a subscription without a worker
  alive has a closed and empty queue.
\<close>

definition work_inv :: "'m state \<Rightarrow> bool" where
  "work_inv \<sigma> \<longleftrightarrow>
     wg \<sigma> = length (filter live (procs \<sigma>)) \<and>
     (\<forall>s < length (heap \<sigma>). inside works_on s (procs \<sigma>) = 0 \<longrightarrow>
          buf (ch (heap \<sigma> ! s)) = [] \<and> shut (ch (heap \<sigma> ! s)))"

text \<open>The subscription whose \<^verbatim>\<open>sendMu\<close> an activity holds, and the message it is about to send.\<close>

fun lock_of :: "'m proc \<Rightarrow> sid option" where
  "lock_of (Enqueuing s m rest) = Some s"
| "lock_of (Sender s m) = Some s"
| "lock_of p = None"

fun holding :: "'m proc \<Rightarrow> (sid \<times> 'm) option" where
  "holding (Enqueuing s m rest) = Some (s, m)"
| "holding (Sender s m) = Some (s, m)"
| "holding p = None"

text \<open>\<^verbatim>\<open>sendMu\<close> is a mutex: it is locked exactly while one activity holds it.\<close>

definition lock_inv :: "'m state \<Rightarrow> bool" where
  "lock_inv \<sigma> \<longleftrightarrow>
     (\<forall>s < length (heap \<sigma>). inside lock_of s (procs \<sigma>) =
          (if sendMu (heap \<sigma> ! s) then 1 else 0))"

text \<open>
  The queue of a subscription is first-in first-out from the calls of enqueue to the calls
  of the handler: the messages put into the channel are the ones handed to the handler
  followed by the ones in the buffer; they are an initial segment of the accepted calls of
  enqueue; while the channel is open, the accepted calls are exactly the queued messages
  followed by the message of the activity that holds \<^verbatim>\<open>sendMu\<close>, if there is one.
\<close>

definition sub_fifo :: "'m subscription \<Rightarrow> bool" where
  "sub_fifo x \<longleftrightarrow>
     queued x = cb_calls x @ buf (ch x) \<and>
     prefix (queued x) (map fst (accepted x)) \<and>
     (\<not> shut (ch x) \<and> \<not> sendMu x \<longrightarrow> map fst (accepted x) = queued x)"

definition fifo_inv :: "'m state \<Rightarrow> bool" where
  "fifo_inv \<sigma> \<longleftrightarrow>
     (\<forall>x \<in> set (heap \<sigma>). sub_fifo x) \<and>
     (\<forall>p \<in> set (procs \<sigma>). \<forall>s m. holding p = Some (s, m) \<and> \<not> shut (ch (heap \<sigma> ! s)) \<longrightarrow>
          map fst (accepted (heap \<sigma> ! s)) = queued (heap \<sigma> ! s) @ [m])"

text \<open>
  The stamps of the accepted calls: the Publish activity of a call existed when the call
  was accepted, the stamp of acceptance is not in the future, and the calls are listed in
  the order of their acceptance.
\<close>

definition called_at :: "'m \<times> nat \<times> nat \<Rightarrow> nat" where
  "called_at x = fst (snd x)"

definition accepted_at :: "'m \<times> nat \<times> nat \<Rightarrow> nat" where
  "accepted_at x = snd (snd x)"

definition sub_time :: "nat \<Rightarrow> 'm subscription \<Rightarrow> bool" where
  "sub_time n x \<longleftrightarrow>
     sorted_wrt (\<lambda>a b. accepted_at a \<le> accepted_at b) (accepted x) \<and>
     (\<forall>a \<in> set (accepted x). called_at a < accepted_at a \<and> accepted_at a \<le> n)"

definition time_inv :: "'m state \<Rightarrow> bool" where
  "time_inv \<sigma> \<longleftrightarrow> (\<forall>x \<in> set (heap \<sigma>). sub_time (length (procs \<sigma>)) x)"

text \<open>All of the above together: what holds in every state the bus can reach.\<close>

definition invs :: "'m state \<Rightarrow> bool" where
  "invs \<sigma> \<longleftrightarrow>
     wf \<sigma> \<and> unsub_inv \<sigma> \<and> reg_inv \<sigma> \<and> close_inv \<sigma> \<and> work_inv \<sigma> \<and> lock_inv \<sigma> \<and>
     fifo_inv \<sigma> \<and> time_inv \<sigma>"

text \<open>
  A subscription after unsubscribe has closed its queue, and the heap after the loop of
  Close has done so for every subscription whose Once was unused.
\<close>

definition torn_down :: "'m subscription \<Rightarrow> 'm subscription" where
  "torn_down x = x\<lparr>ch := (ch x)\<lparr>shut := True\<rparr>, once := Once_done\<rparr>"

definition teardown :: "'m subscription list \<Rightarrow> 'm subscription list" where
  "teardown h = map (\<lambda>x. if once x = Once_new then torn_down x else x) h"

text \<open>
  The results of Close: \<^verbatim>\<open>nil\<close> has been returned only when no worker is left, and the
  error of a context only when that context has fired.
\<close>

definition result_inv :: "'m state \<Rightarrow> bool" where
  "result_inv \<sigma> \<longleftrightarrow>
     (Finished (Ret_Close None) \<in> set (procs \<sigma>) \<longrightarrow> wg \<sigma> = 0) \<and>
     (\<forall>i < length (procs \<sigma>). procs \<sigma> ! i = Finished (Ret_Close (Some CtxErr)) \<longrightarrow>
          i \<in> set (fired \<sigma>))"

text \<open>
  The subscriptions that a call of Publish has in what is left of its copy of the slice,
  with the one whose enqueue it is in.
\<close>

fun snapshot_of :: "'m proc \<Rightarrow> sid set" where
  "snapshot_of (Publishing rest m) = set rest"
| "snapshot_of (Enqueuing s m rest) = insert s (set rest)"
| "snapshot_of p = {}"

text \<open>
  The subscription \<open>s\<close> once a call of Unsubscribe on it has returned, \<open>n\<close> being the
  number of activities at that time: its Once is done, every accepted call of enqueue on
  it comes from a call of Publish made before, and no call of Publish made since has
  it in its copy of the slice.
\<close>

definition unsubscribed :: "nat \<Rightarrow> sid \<Rightarrow> 'm state \<Rightarrow> bool" where
  "unsubscribed n s \<sigma> \<longleftrightarrow>
     s < length (heap \<sigma>) \<and> once (heap \<sigma> ! s) = Once_done \<and>
     (\<forall>a \<in> set (accepted (heap \<sigma> ! s)). called_at a < n) \<and>
     (\<forall>j < length (procs \<sigma>). n \<le> j \<longrightarrow> s \<notin> snapshot_of (procs \<sigma> ! j))"



section \<open>States used as examples\<close>

text \<open>
  One subscriber on subject \<^verbatim>\<open>a\<close>, and a call of Close that has just left its critical
  section: the bus is closed, the map is nil and the subscription waits in \<^verbatim>\<open>toClose\<close>.
\<close>

definition closed_bus :: "nat state" where
  "closed_bus = \<lparr>subs = [], closed = True, wg = 1,
     heap = [\<lparr>subject = ''a'', ch = \<lparr>buf = [], cap = 64, shut = False\<rparr>, cb_calls = [],
              once = Once_new, sendMu = False, accepted = [], queued = []\<rparr>],
     procs = [Finished (Ret_Subscribe (Inr 0)), Worker 0, Closing [0]],
     fired = []\<rparr>"

text \<open>The same bus after a late Subscribe was refused and Close has unsubscribed the subscriber.\<close>

definition closed_bus_later :: "nat state" where
  "closed_bus_later = \<lparr>subs = [], closed = True, wg = 1,
     heap = [\<lparr>subject = ''a'', ch = \<lparr>buf = [], cap = 64, shut = True\<rparr>, cb_calls = [],
              once = Once_done, sendMu = False, accepted = [], queued = []\<rparr>],
     procs = [Finished (Ret_Subscribe (Inr 0)), Worker 0, Closing [],
              Finished (Ret_Subscribe (Inl ErrClosed))],
     fired = []\<rparr>"

text \<open>A subscription as Subscribe creates it.\<close>

definition fresh_sub :: "subject \<Rightarrow> nat subscription" where
  "fresh_sub subj = \<lparr>subject = subj, ch = \<lparr>buf = [], cap = 64, shut = False\<rparr>, cb_calls = [],
     once = Once_new, sendMu = False, accepted = [], queued = []\<rparr>"

text \<open>
  Two subscribers on subject \<^verbatim>\<open>a\<close> and a call of Unsubscribe on the first: at its start,
  after the removal from the map, and after it has returned.
\<close>

definition two_subs :: "nat state" where
  "two_subs = \<lparr>subs = [(''a'', [0, 1])], closed = False, wg = 2,
     heap = [fresh_sub ''a'', fresh_sub ''a''],
     procs = [Finished (Ret_Subscribe (Inr 0)), Worker 0, Finished (Ret_Subscribe (Inr 1)),
              Worker 1, Called (Call_Unsubscribe 0)],
     fired = []\<rparr>"

definition two_subs_removed :: "nat state" where
  "two_subs_removed = \<lparr>subs = [(''a'', [1])], closed = False, wg = 2,
     heap = [(fresh_sub ''a'')\<lparr>once := Once_running\<rparr>, fresh_sub ''a''],
     procs = [Finished (Ret_Subscribe (Inr 0)), Worker 0, Finished (Ret_Subscribe (Inr 1)),
              Worker 1, Unsubscribing 0 None],
     fired = []\<rparr>"

definition two_subs_done :: "nat state" where
  "two_subs_done = \<lparr>subs = [(''a'', [1])], closed = False, wg = 2,
     heap = [(fresh_sub ''a'')\<lparr>ch := \<lparr>buf = [], cap = 64, shut = True\<rparr>, once := Once_done\<rparr>,
             fresh_sub ''a''],
     procs = [Finished (Ret_Subscribe (Inr 0)), Worker 0, Finished (Ret_Subscribe (Inr 1)),
              Worker 1, Finished (Ret_Unsubscribe 0), Called (Call_Unsubscribe 0)],
     fired = []\<rparr>"

text \<open>
  A bus without subscribers on which Close has returned the error of its context, and the
  same bus with a call of Subscribe and a call of Publish made afterwards.
\<close>

definition cancelled_bus :: "nat state" where
  "cancelled_bus = \<lparr>subs = [], closed = True, wg = 0, heap = [],
     procs = [Finished (Ret_Close (Some CtxErr))],
     fired = [0]\<rparr>"

definition late_calls :: "nat state" where
  "late_calls = \<lparr>subs = [], closed = True, wg = 0, heap = [],
     procs = [Finished (Ret_Close (Some CtxErr)), Called (Call_Subscribe ''a''),
              Called (Call_Publish ''a'' 7)],
     fired = [0]\<rparr>"

text \<open>An open bus with one subscriber and a call of Close at its start.\<close>

definition closing_call :: "nat state" where
  "closing_call = \<lparr>subs = [(''a'', [0])], closed = False, wg = 1, heap = [fresh_sub ''a''],
     procs = [Finished (Ret_Subscribe (Inr 0)), Worker 0, Called (Call_Close [])],
     fired = []\<rparr>"

text \<open>
  That call of Close at its \<^verbatim>\<open>select\<close>, the worker not yet finished, and a second call of
  Close at its start.
\<close>

definition waiting_bus :: "nat state" where
  "waiting_bus = \<lparr>subs = [], closed = True, wg = 1,
     heap = [(fresh_sub ''a'')\<lparr>ch := \<lparr>buf = [], cap = 64, shut = True\<rparr>, once := Once_done\<rparr>],
     procs = [Finished (Ret_Subscribe (Inr 0)), Worker 0, Waiting, Called (Call_Close [])],
     fired = []\<rparr>"

text \<open>
  The first call of Close inside the unsubscribe of its only subscription, and at its
  \<^verbatim>\<open>select\<close> after the worker has finished: before the context of the call fires, and
  after Close has returned \<^verbatim>\<open>nil\<close>.
\<close>

definition closing_sub :: "nat state" where
  "closing_sub = \<lparr>subs = [], closed = True, wg = 1,
     heap = [(fresh_sub ''a'')\<lparr>once := Once_running\<rparr>],
     procs = [Finished (Ret_Subscribe (Inr 0)), Worker 0, Unsubscribing 0 (Some [])],
     fired = []\<rparr>"

definition drained_bus :: "nat state" where
  "drained_bus = \<lparr>subs = [], closed = True, wg = 0,
     heap = [(fresh_sub ''a'')\<lparr>ch := \<lparr>buf = [], cap = 64, shut = True\<rparr>, once := Once_done\<rparr>],
     procs = [Finished (Ret_Subscribe (Inr 0)), Finished Ret_go, Waiting],
     fired = []\<rparr>"

definition shut_bus :: "nat state" where
  "shut_bus = \<lparr>subs = [], closed = True, wg = 0,
     heap = [(fresh_sub ''a'')\<lparr>ch := \<lparr>buf = [], cap = 64, shut = True\<rparr>, once := Once_done\<rparr>],
     procs = [Finished (Ret_Subscribe (Inr 0)), Finished Ret_go, Finished (Ret_Close None)],
     fired = []\<rparr>"

text \<open>
  Two subscribers on subject \<^verbatim>\<open>t\<close>. The handler of the first is called with message 0
  and never returns; the second handles every message at once. \<open>publish_both k m\<close> is a
  call of Publish (activity \<open>k\<close>) that runs to its return. Messages 1 to 64 fill the
  queue of the first subscriber, message 65 is handed to a detached sender, and the call
  of Publish for message 66 has copied the slice of subscribers.
\<close>

definition publish_both :: "nat \<Rightarrow> nat \<Rightarrow> nat event list" where
  "publish_both k m = Call (Call_Publish ''t'' m) # replicate 6 (Sched k)"

definition slow_schedule :: "nat event list" where
  "slow_schedule =
     [Call (Call_Subscribe ''t''), Sched 0, Call (Call_Subscribe ''t''), Sched 2] @
     publish_both 4 0 @ [Sched 1, Sched 3, Sched 3] @
     concat (map (\<lambda>m. publish_both (m + 4) m @ [Sched 3, Sched 3]) [1..<65]) @
     publish_both 69 65 @ [Sched 3, Sched 3] @
     [Call (Call_Publish ''t'' 66), Sched 71]"





text \<open>
  One subscriber on subject \<^verbatim>\<open>a\<close> with message 5 in its queue, not yet handled, and a call
  of Unsubscribe on it that has returned; and the same bus after a later call of Publish
  with message 6 has returned and the worker has handled what the queue held.
\<close>

definition unsubscribed_bus :: "nat state" where
  "unsubscribed_bus = \<lparr>subs = [], closed = False, wg = 1,
     heap = [\<lparr>subject = ''a'', ch = \<lparr>buf = [5], cap = 64, shut = True\<rparr>, cb_calls = [],
              once = Once_done, sendMu = False, accepted = [(5, 2, 3)], queued = [5]\<rparr>],
     procs = [Finished (Ret_Subscribe (Inr 0)), Worker 0, Finished (Ret_Publish None),
              Finished (Ret_Unsubscribe 0)],
     fired = []\<rparr>"

definition unsubscribed_bus_later :: "nat state" where
  "unsubscribed_bus_later = \<lparr>subs = [], closed = False, wg = 0,
     heap = [\<lparr>subject = ''a'', ch = \<lparr>buf = [], cap = 64, shut = True\<rparr>, cb_calls = [5],
              once = Once_done, sendMu = False, accepted = [(5, 2, 3)], queued = [5]\<rparr>],
     procs = [Finished (Ret_Subscribe (Inr 0)), Finished Ret_go, Finished (Ret_Publish None),
              Finished (Ret_Unsubscribe 0), Finished (Ret_Publish None)],
     fired = []\<rparr>"





section \<open>Basic facts about schedules\<close>

lemma entering_Some:
  "entering p = Some (s, k) \<longleftrightarrow>
     (p = Called (Call_Unsubscribe s) \<and> k = None) \<or> (\<exists>rest. p = Closing (s # rest) \<and> k = Some rest)"
  by (cases p rule: entering.cases) auto

lemma exec_append:
  "exec (es @ es') \<sigma> = (case exec es \<sigma> of Ok \<sigma>' \<Rightarrow> exec es' \<sigma>' | Blocked \<Rightarrow> Blocked | Panic \<Rightarrow> Panic)"
  by (induction es arbitrary: \<sigma>) (auto split: result.splits)

lemma exec_invariant:
  assumes run: "exec es \<sigma>0 = Ok \<sigma>"
    and init: "I \<sigma>0"
    and pres: "\<And>e \<sigma> \<sigma>'. I \<sigma> \<Longrightarrow> step e \<sigma> = Ok \<sigma>' \<Longrightarrow> I \<sigma>'"
  shows "I \<sigma>"
  using run init
proof (induction es arbitrary: \<sigma>0)
  case Nil
  then show ?case by simp
next
  case (Cons e es)
  then show ?case by (auto split: result.splits dest: pres)
qed

lemma step_cases [consumes 1, case_names Call Sub_closed Sub_ok Wrk_recv Wrk_exit Hnd_ret
    Pub_closed Pub_snap Pub_ret Enq_lock Enq_send Enq_spawn Snd_abort Snd_send
    Uns_done Uns_first Uns_close Cls_closed Cls_first Cls_end Cls_done Cls_ctx Fire]:
  assumes "step e \<sigma> = Ok \<sigma>'"
  obtains
    (Call) c where "e = Call c" "valid_call c \<sigma>" "\<sigma>' = \<sigma>\<lparr>procs := procs \<sigma> @ [Called c]\<rparr>"
  | (Sub_closed) i subj where "e = Sched i" "i < length (procs \<sigma>)"
      "procs \<sigma> ! i = Called (Call_Subscribe subj)" "closed \<sigma>"
      "\<sigma>' = \<sigma>\<lparr>procs := (procs \<sigma>)[i := Finished (Ret_Subscribe (Inl ErrClosed))]\<rparr>"
  | (Sub_ok) i subj where "e = Sched i" "i < length (procs \<sigma>)"
      "procs \<sigma> ! i = Called (Call_Subscribe subj)" "\<not> closed \<sigma>"
      "\<sigma>' = \<sigma>\<lparr>heap := heap \<sigma> @
                  [\<lparr>subject = subj, ch = \<lparr>buf = [], cap = 64, shut = False\<rparr>, cb_calls = [],
                    once = Once_new, sendMu = False, accepted = [], queued = []\<rparr>],
               subs := AList.update subj (subs_of (subs \<sigma>) subj @ [length (heap \<sigma>)]) (subs \<sigma>),
               wg := wg \<sigma> + 1,
               procs := (procs \<sigma>)[i := Finished (Ret_Subscribe (Inr (length (heap \<sigma>))))]
                          @ [Worker (length (heap \<sigma>))]\<rparr>"
  | (Wrk_recv) i s m rest where "e = Sched i" "i < length (procs \<sigma>)"
      "procs \<sigma> ! i = Worker s" "buf (ch (heap \<sigma> ! s)) = m # rest"
      "\<sigma>' = \<sigma>\<lparr>heap := (heap \<sigma>)[s := (heap \<sigma> ! s)\<lparr>ch := (ch (heap \<sigma> ! s))\<lparr>buf := rest\<rparr>,
                                    cb_calls := cb_calls (heap \<sigma> ! s) @ [m]\<rparr>],
               procs := (procs \<sigma>)[i := Handling s m]\<rparr>"
  | (Wrk_exit) i s where "e = Sched i" "i < length (procs \<sigma>)"
      "procs \<sigma> ! i = Worker s" "buf (ch (heap \<sigma> ! s)) = []" "shut (ch (heap \<sigma> ! s))"
      "wg \<sigma> \<noteq> 0"
      "\<sigma>' = \<sigma>\<lparr>wg := wg \<sigma> - 1, procs := (procs \<sigma>)[i := Finished Ret_go]\<rparr>"
  | (Hnd_ret) i s m where "e = Sched i" "i < length (procs \<sigma>)"
      "procs \<sigma> ! i = Handling s m"
      "\<sigma>' = \<sigma>\<lparr>procs := (procs \<sigma>)[i := Worker s]\<rparr>"
  | (Pub_closed) i subj msg where "e = Sched i" "i < length (procs \<sigma>)"
      "procs \<sigma> ! i = Called (Call_Publish subj msg)" "closed \<sigma>"
      "\<sigma>' = \<sigma>\<lparr>procs := (procs \<sigma>)[i := Finished (Ret_Publish (Some ErrClosed))]\<rparr>"
  | (Pub_snap) i subj msg where "e = Sched i" "i < length (procs \<sigma>)"
      "procs \<sigma> ! i = Called (Call_Publish subj msg)" "\<not> closed \<sigma>"
      "\<sigma>' = \<sigma>\<lparr>procs := (procs \<sigma>)[i := Publishing (subs_of (subs \<sigma>) subj) msg]\<rparr>"
  | (Pub_ret) i msg where "e = Sched i" "i < length (procs \<sigma>)"
      "procs \<sigma> ! i = Publishing [] msg"
      "\<sigma>' = \<sigma>\<lparr>procs := (procs \<sigma>)[i := Finished (Ret_Publish None)]\<rparr>"
  | (Enq_lock) i s rest msg where "e = Sched i" "i < length (procs \<sigma>)"
      "procs \<sigma> ! i = Publishing (s # rest) msg" "\<not> sendMu (heap \<sigma> ! s)"
      "\<sigma>' = \<sigma>\<lparr>heap := (heap \<sigma>)[s := (heap \<sigma> ! s)\<lparr>sendMu := True,
                    accepted := accepted (heap \<sigma> ! s) @ [(msg, i, length (procs \<sigma>))]\<rparr>],
               procs := (procs \<sigma>)[i := Enqueuing s msg rest]\<rparr>"
  | (Enq_send) i s msg rest where "e = Sched i" "i < length (procs \<sigma>)"
      "procs \<sigma> ! i = Enqueuing s msg rest" "\<not> shut (ch (heap \<sigma> ! s))"
      "length (buf (ch (heap \<sigma> ! s))) < cap (ch (heap \<sigma> ! s))"
      "\<sigma>' = \<sigma>\<lparr>heap := (heap \<sigma>)[s := (heap \<sigma> ! s)\<lparr>
                    ch := (ch (heap \<sigma> ! s))\<lparr>buf := buf (ch (heap \<sigma> ! s)) @ [msg]\<rparr>,
                    sendMu := False, queued := queued (heap \<sigma> ! s) @ [msg]\<rparr>],
               procs := (procs \<sigma>)[i := Publishing rest msg]\<rparr>"
  | (Enq_spawn) i s msg rest where "e = Sched i" "i < length (procs \<sigma>)"
      "procs \<sigma> ! i = Enqueuing s msg rest" "\<not> shut (ch (heap \<sigma> ! s))"
      "\<not> length (buf (ch (heap \<sigma> ! s))) < cap (ch (heap \<sigma> ! s))"
      "\<sigma>' = \<sigma>\<lparr>procs := (procs \<sigma>)[i := Publishing rest msg] @ [Sender s msg]\<rparr>"
  | (Snd_abort) i s msg where "e = Sched i" "i < length (procs \<sigma>)"
      "procs \<sigma> ! i = Sender s msg" "shut (ch (heap \<sigma> ! s))"
      "\<sigma>' = \<sigma>\<lparr>heap := (heap \<sigma>)[s := (heap \<sigma> ! s)\<lparr>sendMu := False\<rparr>],
               procs := (procs \<sigma>)[i := Finished Ret_go]\<rparr>"
  | (Snd_send) i s msg where "e = Sched i" "i < length (procs \<sigma>)"
      "procs \<sigma> ! i = Sender s msg" "\<not> shut (ch (heap \<sigma> ! s))"
      "length (buf (ch (heap \<sigma> ! s))) < cap (ch (heap \<sigma> ! s))"
      "\<sigma>' = \<sigma>\<lparr>heap := (heap \<sigma>)[s := (heap \<sigma> ! s)\<lparr>
                    ch := (ch (heap \<sigma> ! s))\<lparr>buf := buf (ch (heap \<sigma> ! s)) @ [msg]\<rparr>,
                    sendMu := False, queued := queued (heap \<sigma> ! s) @ [msg]\<rparr>],
               procs := (procs \<sigma>)[i := Finished Ret_go]\<rparr>"
  | (Uns_done) i s k where "e = Sched i" "i < length (procs \<sigma>)"
      "entering (procs \<sigma> ! i) = Some (s, k)" "once (heap \<sigma> ! s) = Once_done"
      "\<sigma>' = \<sigma>\<lparr>procs := (procs \<sigma>)[i := resume s k]\<rparr>"
  | (Uns_first) i s k where "e = Sched i" "i < length (procs \<sigma>)"
      "entering (procs \<sigma> ! i) = Some (s, k)" "once (heap \<sigma> ! s) = Once_new"
      "\<sigma>' = \<sigma>\<lparr>heap := (heap \<sigma>)[s := (heap \<sigma> ! s)\<lparr>once := Once_running\<rparr>],
               subs := remove_sub s (subject (heap \<sigma> ! s)) (subs \<sigma>),
               procs := (procs \<sigma>)[i := Unsubscribing s k]\<rparr>"
  | (Uns_close) i s k where "e = Sched i" "i < length (procs \<sigma>)"
      "procs \<sigma> ! i = Unsubscribing s k" "\<not> shut (ch (heap \<sigma> ! s))"
      "\<sigma>' = \<sigma>\<lparr>heap := (heap \<sigma>)[s := (heap \<sigma> ! s)\<lparr>
                    ch := (ch (heap \<sigma> ! s))\<lparr>shut := True\<rparr>, once := Once_done\<rparr>],
               procs := (procs \<sigma>)[i := resume s k]\<rparr>"
  | (Cls_closed) i ord where "e = Sched i" "i < length (procs \<sigma>)"
      "procs \<sigma> ! i = Called (Call_Close ord)" "closed \<sigma>"
      "\<sigma>' = \<sigma>\<lparr>procs := (procs \<sigma>)[i := Finished (Ret_Close (Some ErrClosed))]\<rparr>"
  | (Cls_first) i ord keys where "e = Sched i" "i < length (procs \<sigma>)"
      "procs \<sigma> ! i = Called (Call_Close ord)" "\<not> closed \<sigma>"
      "set keys = fst ` set (subs \<sigma>)"
      "\<sigma>' = \<sigma>\<lparr>closed := True, subs := [],
               procs := (procs \<sigma>)[i := Closing (concat (map (subs_of (subs \<sigma>)) keys))]\<rparr>"
  | (Cls_end) i where "e = Sched i" "i < length (procs \<sigma>)"
      "procs \<sigma> ! i = Closing []"
      "\<sigma>' = \<sigma>\<lparr>procs := (procs \<sigma>)[i := Waiting]\<rparr>"
  | (Cls_done) i where "e = Sched i" "i < length (procs \<sigma>)"
      "procs \<sigma> ! i = Waiting" "wg \<sigma> = 0"
      "\<sigma>' = \<sigma>\<lparr>procs := (procs \<sigma>)[i := Finished (Ret_Close None)]\<rparr>"
  | (Cls_ctx) i where "e = Ctx_done i" "i < length (procs \<sigma>)"
      "procs \<sigma> ! i = Waiting" "i \<in> set (fired \<sigma>)"
      "\<sigma>' = \<sigma>\<lparr>procs := (procs \<sigma>)[i := Finished (Ret_Close (Some CtxErr))]\<rparr>"
  | (Fire) i where "e = Cancel i" "i < length (procs \<sigma>)"
      "\<sigma>' = \<sigma>\<lparr>fired := fired \<sigma> @ [i]\<rparr>"
proof (cases e)
  case (Call c)
  with assms that(1) show ?thesis by (auto split: if_splits)
next
  case (Ctx_done i)
  with assms that(22) show ?thesis by (auto simp: Close_ctx_def split: if_splits)
next
  case (Cancel i)
  with assms that(23) show ?thesis by (auto split: if_splits)
next
  case (Sched i)
  with assms have i: "i < length (procs \<sigma>)" and r: "run i (procs \<sigma> ! i) \<sigma> = Ok \<sigma>'"
    by (auto split: if_splits)
  show ?thesis
  proof (cases "procs \<sigma> ! i")
    case (Called c)
    show ?thesis
    proof (cases c)
      case (Call_Subscribe subj)
      with Called r i Sched that(2,3) show ?thesis
        by (auto simp: Subscribe_def make_chan_def Let_def split: if_splits)
    next
      case (Call_Publish subj msg)
      with Called r i Sched that(7,8) show ?thesis
        by (auto simp: Publish_def Let_def split: if_splits)
    next
      case (Call_Unsubscribe s)
      with Called r i Sched that(15,16)[of i s None] show ?thesis
        by (auto simp: unsubscribe_def Let_def split: once_state.splits)
    next
      case (Call_Close ord)
      show ?thesis
      proof (cases "closed \<sigma>")
        case True
        with Call_Close Called r i Sched that(18) show ?thesis
          by (auto simp: Close_def)
      next
        case False
        let ?keys = "if distinct ord \<and> set ord = set (map fst (subs \<sigma>)) then ord else map fst (subs \<sigma>)"
        have "set ?keys = fst ` set (subs \<sigma>)" by auto
        with False Call_Close Called r i Sched that(19)[of i ord ?keys] show ?thesis
          by (simp add: Close_def Let_def)
      qed
    qed
  next
    case (Worker s)
    with r i Sched that(4,5)[of i s] show ?thesis
      by (auto simp: worker_def chan_recv_def Let_def split: list.splits if_splits)
  next
    case (Handling s m)
    with r i Sched that(6) show ?thesis by (auto simp: worker_cb_returns_def)
  next
    case (Publishing subsCopy msg)
    with r i Sched that(9,10)[of i] show ?thesis
      by (auto simp: Publish_range_def enqueue_def Let_def split: list.splits if_splits)
  next
    case (Enqueuing s msg rest)
    with r i Sched that(11,12)[of i s msg rest] show ?thesis
      by (auto simp: enqueue_select_def chan_send_def Let_def split: if_splits)
  next
    case (Sender s msg)
    with r i Sched that(13,14)[of i s msg] show ?thesis
      by (auto simp: enqueue_go_def chan_send_def Let_def split: if_splits)
  next
    case (Unsubscribing s k)
    with r i Sched that(17)[of i s k] show ?thesis
      by (auto simp: unsubscribe_close_def chan_close_def Let_def split: if_splits)
  next
    case (Closing toClose)
    show ?thesis
    proof (cases toClose)
      case Nil
      with Closing r i Sched that(20) show ?thesis by (auto simp: Close_range_def)
    next
      case (Cons s rest)
      with Closing r i Sched that(15,16)[of i s "Some rest"] show ?thesis
        by (auto simp: Close_range_def unsubscribe_def Let_def split: once_state.splits)
    qed
  next
    case Waiting
    with r i Sched that(21) show ?thesis by (auto simp: Close_done_def split: if_splits)
  next
    case (Finished r')
    with r show ?thesis by simp
  qed
qed



section \<open>The loop of unsubscribe over the slice\<close>

lemma first_index_None: "first_index x xs = None \<longleftrightarrow> x \<notin> set xs"
  by (induction xs) auto

lemma first_index_Some: "first_index x xs = Some i \<Longrightarrow> i < length xs \<and> xs ! i = x"
  by (induction xs arbitrary: i) (auto split: if_splits)

lemma first_index_first: "first_index x xs = Some i \<Longrightarrow> j < i \<Longrightarrow> xs ! j \<noteq> x"
  by (induction xs arbitrary: i j) (auto split: if_splits simp: nth_Cons split: nat.splits)

lemma swap_remove_absent: "s \<notin> set l \<Longrightarrow> swap_remove s l = l"
  by (simp add: swap_remove_def first_index_None[THEN iffD2])

lemma swap_remove_snoc:
  assumes "first_index s (xs @ [z]) = Some i"
  shows "swap_remove s (xs @ [z]) = (if i < length xs then xs[i := z] else xs)"
  using assms first_index_Some[OF assms]
  by (auto simp: swap_remove_def list_update_append)

lemma swap_remove_cases:
  obtains (absent) "s \<notin> set l" "swap_remove s l = l"
  | (last) xs where "l = xs @ [s]" "s \<notin> set xs" "swap_remove s l = xs"
  | (inner) xs z i where "l = xs @ [z]" "i < length xs" "xs ! i = s" "swap_remove s l = xs[i := z]"
proof (cases "first_index s l")
  case None
  then show ?thesis using absent by (simp add: first_index_None swap_remove_absent)
next
  case (Some i)
  from first_index_Some[OF Some] have il: "i < length l" "l ! i = s" by auto
  then obtain xs z where l: "l = xs @ [z]" by (cases l rule: rev_cases) auto
  show ?thesis
  proof (cases "i < length xs")
    case True
    with Some l il inner[of xs z i] show ?thesis
      by (simp add: swap_remove_snoc nth_append)
  next
    case False
    with il l have iz: "i = length xs" "z = s" by (auto simp: nth_append)
    have "s \<notin> set xs"
    proof
      assume "s \<in> set xs"
      then obtain j where j: "j < length xs" "xs ! j = s" by (auto simp: in_set_conv_nth)
      with first_index_first[OF Some, of j] l iz show False by (simp add: nth_append)
    qed
    with iz Some l last[of xs] show ?thesis by (simp add: swap_remove_snoc)
  qed
qed

lemma set_swap_remove_subset: "set (swap_remove s l) \<subseteq> set l"
  by (cases s l rule: swap_remove_cases) (auto dest: set_update_subset_insert[THEN subsetD])

lemma swap_remove_keeps: "t \<in> set l \<Longrightarrow> t \<noteq> s \<Longrightarrow> t \<in> set (swap_remove s l)"
proof (cases s l rule: swap_remove_cases)
  case (inner xs z i)
  assume t: "t \<in> set l" "t \<noteq> s"
  show ?thesis
  proof (cases "t = z")
    case True
    with inner show ?thesis by (simp add: set_update_memI)
  next
    case False
    with t inner obtain j where j: "j < length xs" "xs ! j = t" by (auto simp: in_set_conv_nth)
    with t inner have "j \<noteq> i" by auto
    with j inner have "xs[i := z] ! j = t" by simp
    with j inner show ?thesis by (metis length_list_update nth_mem)
  qed
qed auto

lemma distinct_swap_remove: "distinct l \<Longrightarrow> distinct (swap_remove s l)"
  by (cases s l rule: swap_remove_cases) (auto simp: distinct_list_update)

lemma set_swap_remove: "distinct l \<Longrightarrow> set (swap_remove s l) = set l - {s}"
proof (cases s l rule: swap_remove_cases)
  case (inner xs z i)
  assume "distinct l"
  with inner show ?thesis by (auto simp: set_update_distinct)
qed auto

lemma swap_remove_empty:
  assumes "swap_remove s l = []"
  shows "l = [] \<or> l = [s]"
proof (cases s l rule: swap_remove_cases)
  case (inner xs z i)
  then have "length (swap_remove s l) = length xs" by simp
  with inner assms show ?thesis by simp
qed (use assms in auto)


section \<open>Counting activities\<close>

lemma inside_Nil [simp]: "inside f s [] = 0"
  by (simp add: inside_def)

lemma inside_append [simp]: "inside f s (xs @ ys) = inside f s xs + inside f s ys"
  by (simp add: inside_def)

lemma inside_Cons [simp]: "inside f s (x # xs) = (if f x = Some s then 1 else 0) + inside f s xs"
  by (simp add: inside_def)

lemma inside_update_gen:
  "i < length xs \<Longrightarrow>
   inside f s (xs[i := y]) + (if f (xs ! i) = Some s then 1 else 0) =
   inside f s xs + (if f y = Some s then 1 else 0)"
proof (induction xs arbitrary: i)
  case Nil
  then show ?case by simp
next
  case (Cons x xs)
  then show ?case by (cases i) (auto simp del: inside_Cons simp add: inside_Cons[of f s])
qed

lemma inside_zero: "inside f s xs = 0 \<longleftrightarrow> (\<forall>p \<in> set xs. f p \<noteq> Some s)"
  by (auto simp: inside_def filter_empty_conv)

lemma inside_pos: "i < length xs \<Longrightarrow> f (xs ! i) = Some s \<Longrightarrow> 0 < inside f s xs"
  using inside_zero[of f s xs] by (cases "inside f s xs") auto

lemma inside_update:
  "i < length xs \<Longrightarrow>
   inside f s (xs[i := y]) =
   inside f s xs - (if f (xs ! i) = Some s then 1 else 0) + (if f y = Some s then 1 else 0)"
  using inside_update_gen[of i xs f s y] inside_pos[of i xs f s] by (auto split: if_splits)

lemma inside_update_same:
  "f (xs ! i) = f y \<Longrightarrow> inside f s (xs[i := y]) = inside f s xs"
  by (cases "i < length xs") (simp_all add: inside_update inside_pos not_less list_update_beyond)

lemma inside_unique:
  assumes le: "inside f s xs \<le> 1" and i: "i < length xs" and j: "j < length xs"
    and fi: "f (xs ! i) = Some s" and fj: "f (xs ! j) = Some s"
  shows "i = j"
proof (rule ccontr)
  assume ne: "i \<noteq> j"
  have "inside f s xs = inside f s (take i xs @ xs ! i # drop (Suc i) xs)"
    by (rule arg_cong[where f = "inside f s"]) (rule id_take_nth_drop[OF i])
  also have "\<dots> = inside f s (take i xs) + (1 + inside f s (drop (Suc i) xs))"
    using fi by simp
  finally have "inside f s xs = inside f s (take i xs) + (1 + inside f s (drop (Suc i) xs))" .
  with le have z: "inside f s (take i xs) = 0" "inside f s (drop (Suc i) xs) = 0" by auto
  show False
  proof (cases "j < i")
    case True
    with i have "xs ! j \<in> set (take i xs)" by (auto simp: in_set_conv_nth intro!: exI[of _ j])
    with z(1) fj show False by (simp add: inside_zero)
  next
    case False
    with ne j have "xs ! j = drop (Suc i) xs ! (j - Suc i)" "j - Suc i < length (drop (Suc i) xs)"
      by auto
    then have "xs ! j \<in> set (drop (Suc i) xs)" by (simp only: nth_mem)
    with z(2) fj show False by (simp add: inside_zero)
  qed
qed


section \<open>Pointers stay inside the heap\<close>

lemma subs_of_update [simp]:
  "subs_of (AList.update k v m) k' = (if k' = k then v else subs_of m k')"
  by (simp add: subs_of_def update_conv')

lemma subs_of_remove_sub [simp]:
  "subs_of (remove_sub s subj m) k = (if k = subj then swap_remove s (subs_of m subj) else subs_of m k)"
  by (auto simp: subs_of_def remove_sub_def Let_def delete_conv' update_conv' swap_remove_absent
      split: option.splits)

lemma subs_of_Nil [simp]: "subs_of [] k = []"
  by (simp add: subs_of_def)

lemma set_toClose:
  "set keys = fst ` set m \<Longrightarrow> set (concat (map (subs_of m) keys)) = (\<Union>k. set (subs_of m k))"
proof -
  assume k: "set keys = fst ` set m"
  have "subs_of m k = []" if "k \<notin> fst ` set m" for k
    using that by (simp add: subs_of_def map_of_eq_None_iff[THEN iffD2])
  then have "(\<Union>k. set (subs_of m k)) = (\<Union>k\<in>fst ` set m. set (subs_of m k))"
    by fastforce
  with k show ?thesis by auto
qed

lemma sids_of_resume: "sids_of (resume s k) = insert s (case k of None \<Rightarrow> {} | Some rest \<Rightarrow> set rest) \<or> sids_of (resume s k) = (case k of None \<Rightarrow> {} | Some rest \<Rightarrow> set rest)"
  by (auto simp: resume_def split: option.splits)

lemma sids_of_resume_subset: "sids_of (resume s k) \<subseteq> sids_of (Unsubscribing s k)"
  by (auto simp: resume_def split: option.splits)

lemma sids_of_entering: "entering p = Some (s, k) \<Longrightarrow> sids_of (Unsubscribing s k) = sids_of p"
  by (auto simp: entering_Some)

lemma wf_init: "wf NewSubPub"
  by (simp add: wf_def NewSubPub_def)

lemma wfD:
  "wf \<sigma> \<Longrightarrow> i < length (procs \<sigma>) \<Longrightarrow> \<forall>s \<in> sids_of (procs \<sigma> ! i). s < length (heap \<sigma>)"
  by (auto simp: wf_def)

lemma wf_update:
  assumes "wf \<sigma>" "length (heap \<sigma>) \<le> length (heap \<sigma>')"
    and "\<And>p. p \<in> set (procs \<sigma>') \<Longrightarrow>
           p \<in> set (procs \<sigma>) \<or> (\<forall>s \<in> sids_of p. s < length (heap \<sigma>'))"
    and "\<And>k s. s \<in> set (subs_of (subs \<sigma>') k) \<Longrightarrow>
           s \<in> set (subs_of (subs \<sigma>) k) \<or> s < length (heap \<sigma>')"
  shows "wf \<sigma>'"
  unfolding wf_def
proof (intro conjI ballI allI)
  fix p s assume "p \<in> set (procs \<sigma>')" "s \<in> sids_of p"
  with assms(3)[of p] assms(1,2) show "s < length (heap \<sigma>')"
    by (fastforce simp: wf_def)
next
  fix k s assume "s \<in> set (subs_of (subs \<sigma>') k)"
  with assms(4)[of s k] assms(1,2) show "s < length (heap \<sigma>')"
    by (fastforce simp: wf_def)
qed

lemma in_set_updD: "p \<in> set (xs[i := q]) \<Longrightarrow> p = q \<or> p \<in> set xs"
  by (auto dest: set_update_subset_insert[THEN subsetD])

lemma wf_step:
  assumes "wf \<sigma>" "step e \<sigma> = Ok \<sigma>'"
  shows "wf \<sigma>'"
  using assms(2)
proof (cases rule: step_cases)
  case (Call c)
  then show ?thesis by (intro wf_update[OF assms(1)]) (cases c; auto)+
next
  case (Sub_ok i subj)
  then show ?thesis
    by (intro wf_update[OF assms(1)]) (auto dest!: in_set_updD split: if_splits)
next
  case (Wrk_recv i s m rest)
  with wfD[OF assms(1), of i] show ?thesis
    by (intro wf_update[OF assms(1)]) (auto dest!: in_set_updD)
next
  case (Hnd_ret i s m)
  with wfD[OF assms(1), of i] show ?thesis
    by (intro wf_update[OF assms(1)]) (auto dest!: in_set_updD)
next
  case (Pub_snap i subj msg)
  with assms(1) show ?thesis
    by (intro wf_update[OF assms(1)]) (auto simp: wf_def dest!: in_set_updD)
next
  case (Enq_lock i s rest msg)
  with wfD[OF assms(1), of i] show ?thesis
    by (intro wf_update[OF assms(1)]) (auto dest!: in_set_updD)
next
  case (Enq_send i s msg rest)
  with wfD[OF assms(1), of i] show ?thesis
    by (intro wf_update[OF assms(1)]) (auto dest!: in_set_updD)
next
  case (Enq_spawn i s msg rest)
  with wfD[OF assms(1), of i] show ?thesis
    by (intro wf_update[OF assms(1)]) (auto dest!: in_set_updD)
next
  case (Uns_done i s k)
  with wfD[OF assms(1), of i] sids_of_entering[of "procs \<sigma> ! i" s k]
    sids_of_resume_subset[of s k] show ?thesis
    by (intro wf_update[OF assms(1)]) (auto dest!: in_set_updD)
next
  case (Uns_first i s k)
  with wfD[OF assms(1), of i] sids_of_entering[of "procs \<sigma> ! i" s k]
    set_swap_remove_subset[of s "subs_of (subs \<sigma>) (subject (heap \<sigma> ! s))"] show ?thesis
    by (intro wf_update[OF assms(1)]) (auto dest!: in_set_updD split: if_splits)
next
  case (Uns_close i s k)
  with wfD[OF assms(1), of i] sids_of_resume_subset[of s k] show ?thesis
    by (intro wf_update[OF assms(1)]) (auto dest!: in_set_updD)
next
  case (Cls_first i ord keys)
  with assms(1) set_toClose[of keys "subs \<sigma>"] show ?thesis
    by (intro wf_update[OF assms(1)]) (auto simp: wf_def dest!: in_set_updD)
next
  case (Fire i)
  then show ?thesis using assms(1) by (simp add: wf_def)
qed (intro wf_update[OF assms(1)]; auto dest!: in_set_updD)+

lemma wf_exec: "exec es NewSubPub = Ok \<sigma> \<Longrightarrow> wf \<sigma>"
  by (erule exec_invariant[where I = wf]) (auto intro: wf_init wf_step)


section \<open>The Once of a subscription and its channel\<close>

lemma unsub_inv_init: "unsub_inv NewSubPub"
  by (simp add: unsub_inv_def NewSubPub_def)

lemma unsub_at_resume [simp]: "unsub_at (resume s k) = None"
  by (simp add: resume_def split: option.splits)

lemma unsub_at_entering: "entering p = Some (s, k) \<Longrightarrow> unsub_at p = None"
  by (auto simp: entering_Some)

lemma unsub_returned_entering: "entering p = Some (s, k) \<Longrightarrow> unsub_returned p = None"
  by (auto simp: entering_Some)

lemma unsub_returned_resume: "unsub_returned (resume s k) = Some t \<Longrightarrow> t = s"
  by (auto simp: resume_def split: option.splits)

lemma wf_at:
  "wf \<sigma> \<Longrightarrow> i < length (procs \<sigma>) \<Longrightarrow> s \<in> sids_of (procs \<sigma> ! i) \<Longrightarrow> s < length (heap \<sigma>)"
  by (auto simp: wf_def)

lemma entering_sids: "entering p = Some (s, k) \<Longrightarrow> s \<in> sids_of p"
  by (auto simp: entering_Some)

lemma wf_sidsD:
  "wf \<sigma> \<Longrightarrow> (\<And>p s. f p = Some s \<Longrightarrow> s \<in> sids_of p) \<Longrightarrow>
   p \<in> set (procs \<sigma>) \<Longrightarrow> f p = Some s \<Longrightarrow> s < length (heap \<sigma>)"
  by (auto simp: wf_def)

lemma inside_fresh:
  assumes "wf \<sigma>" "\<And>p s. f p = Some s \<Longrightarrow> s \<in> sids_of p"
  shows "inside f (length (heap \<sigma>)) (procs \<sigma>) = 0"
  unfolding inside_zero using wf_sidsD[OF assms(1), of f] assms(2) by fastforce

lemma unsub_at_sids: "unsub_at p = Some s \<Longrightarrow> s \<in> sids_of p"
  by (cases p rule: unsub_at.cases) auto

lemma unsub_returned_sids: "unsub_returned p = Some s \<Longrightarrow> s \<in> sids_of p"
  by (cases p rule: unsub_returned.cases) auto

lemma unsub_inv_step:
  assumes inv: "unsub_inv \<sigma>" and wf: "wf \<sigma>" and st: "step e \<sigma> = Ok \<sigma>'"
  shows "unsub_inv \<sigma>'"
proof -
  from inv have
    cnt: "\<And>s. s < length (heap \<sigma>) \<Longrightarrow>
            inside unsub_at s (procs \<sigma>) = (if once (heap \<sigma> ! s) = Once_running then 1 else 0)"
    and sh: "\<And>s. s < length (heap \<sigma>) \<Longrightarrow> shut (ch (heap \<sigma> ! s)) \<longleftrightarrow> once (heap \<sigma> ! s) = Once_done"
    and rt: "\<And>p s. p \<in> set (procs \<sigma>) \<Longrightarrow> unsub_returned p = Some s \<Longrightarrow> once (heap \<sigma> ! s) = Once_done"
    by (auto simp: unsub_inv_def)
  from st show ?thesis
  proof (cases rule: step_cases)
    case (Call c)
    then show ?thesis using cnt sh rt by (auto simp: unsub_inv_def)
  next
    case (Sub_closed i subj)
    then show ?thesis using cnt sh rt 
      by (auto simp: unsub_inv_def inside_update_same nth_list_update dest!: in_set_updD)
  next
    case (Sub_ok i subj)
    then show ?thesis using cnt sh rt inside_fresh[OF wf, of unsub_at, OF unsub_at_sids] wf_sidsD[OF wf unsub_returned_sids]
      by (auto simp: unsub_inv_def inside_update_same nth_append less_Suc_eq dest!: in_set_updD)
  next
    case (Wrk_recv i s m rest)
    then show ?thesis using cnt sh rt wfD[OF wf, of i]
      by (auto simp: unsub_inv_def inside_update_same nth_list_update dest!: in_set_updD)
  next
    case (Wrk_exit i s)
    then show ?thesis using cnt sh rt wfD[OF wf, of i]
      by (auto simp: unsub_inv_def inside_update_same nth_list_update dest!: in_set_updD)
  next
    case (Hnd_ret i s m)
    then show ?thesis using cnt sh rt wfD[OF wf, of i]
      by (auto simp: unsub_inv_def inside_update_same nth_list_update dest!: in_set_updD)
  next
    case (Pub_closed i subj msg)
    then show ?thesis using cnt sh rt 
      by (auto simp: unsub_inv_def inside_update_same nth_list_update dest!: in_set_updD)
  next
    case (Pub_snap i subj msg)
    then show ?thesis using cnt sh rt 
      by (auto simp: unsub_inv_def inside_update_same nth_list_update dest!: in_set_updD)
  next
    case (Pub_ret i msg)
    then show ?thesis using cnt sh rt 
      by (auto simp: unsub_inv_def inside_update_same nth_list_update dest!: in_set_updD)
  next
    case (Enq_lock i s rest msg)
    then show ?thesis using cnt sh rt wfD[OF wf, of i]
      by (auto simp: unsub_inv_def inside_update_same nth_list_update dest!: in_set_updD)
  next
    case (Enq_send i s msg rest)
    then show ?thesis using cnt sh rt wfD[OF wf, of i]
      by (auto simp: unsub_inv_def inside_update_same nth_list_update dest!: in_set_updD)
  next
    case (Enq_spawn i s msg rest)
    then show ?thesis using cnt sh rt wfD[OF wf, of i]
      by (auto simp: unsub_inv_def inside_update_same nth_list_update dest!: in_set_updD)
  next
    case (Snd_abort i s msg)
    then show ?thesis using cnt sh rt wfD[OF wf, of i]
      by (auto simp: unsub_inv_def inside_update_same nth_list_update dest!: in_set_updD)
  next
    case (Snd_send i s msg)
    then show ?thesis using cnt sh rt wfD[OF wf, of i]
      by (auto simp: unsub_inv_def inside_update_same nth_list_update dest!: in_set_updD)
  next
    case (Uns_done i s k)
    then show ?thesis using cnt sh rt wfD[OF wf, of i] wf_at[OF wf, of i s] entering_sids[of "procs \<sigma> ! i" s k] unsub_at_entering[of "procs \<sigma> ! i" s k] unsub_returned_entering[of "procs \<sigma> ! i" s k]
      by (auto simp: unsub_inv_def inside_update_same nth_list_update dest!: in_set_updD unsub_returned_resume)
  next
    case (Uns_first i s k)
    then show ?thesis using cnt sh rt wfD[OF wf, of i] wf_at[OF wf, of i s] entering_sids[of "procs \<sigma> ! i" s k] unsub_at_entering[of "procs \<sigma> ! i" s k] unsub_returned_entering[of "procs \<sigma> ! i" s k]
      by (auto simp: unsub_inv_def inside_update nth_list_update dest!: in_set_updD)
  next
    case (Uns_close i s k)
    then show ?thesis using cnt sh rt wfD[OF wf, of i] inside_pos[of i "procs \<sigma>" unsub_at s]
      by (auto simp: unsub_inv_def inside_update nth_list_update dest!: in_set_updD unsub_returned_resume)
  next
    case (Cls_closed i ord)
    then show ?thesis using cnt sh rt 
      by (auto simp: unsub_inv_def inside_update_same nth_list_update dest!: in_set_updD)
  next
    case (Cls_first i ord keys)
    then show ?thesis using cnt sh rt 
      by (auto simp: unsub_inv_def inside_update_same nth_list_update dest!: in_set_updD)
  next
    case (Cls_end i)
    then show ?thesis using cnt sh rt 
      by (auto simp: unsub_inv_def inside_update_same nth_list_update dest!: in_set_updD)
  next
    case (Cls_done i)
    then show ?thesis using cnt sh rt 
      by (auto simp: unsub_inv_def inside_update_same nth_list_update dest!: in_set_updD)
  next
    case (Cls_ctx i)
    then show ?thesis using cnt sh rt 
      by (auto simp: unsub_inv_def inside_update_same nth_list_update dest!: in_set_updD)
  next
    case (Fire i)
    then show ?thesis using inv by (simp add: unsub_inv_def)
  qed
qed


section \<open>The map of the bus\<close>

lemma reg_inv_init: "reg_inv NewSubPub"
  by (simp add: reg_inv_def NewSubPub_def)

lemma distinct_remove_sub: "distinct (map fst m) \<Longrightarrow> distinct (map fst (remove_sub s subj m))"
  by (auto simp: remove_sub_def Let_def distinct_update distinct_delete split: option.splits)

lemma map_of_remove_sub:
  "map_of (remove_sub s subj m) k =
     (if k = subj \<and> map_of m subj \<noteq> None
      then (if swap_remove s (subs_of m subj) = [] then None else Some (swap_remove s (subs_of m subj)))
      else map_of m k)"
  by (auto simp: remove_sub_def subs_of_def Let_def delete_conv' update_conv' split: option.splits)

lemma remove_sub_Nil [simp]: "remove_sub s subj [] = []"
  by (simp add: remove_sub_def)

lemma reg_inv_step:
  assumes inv: "reg_inv \<sigma>" and wf: "wf \<sigma>" and un: "unsub_inv \<sigma>" and st: "step e \<sigma> = Ok \<sigma>'"
  shows "reg_inv \<sigma>'"
proof -
  from inv have
    dk: "distinct (map fst (subs \<sigma>))"
    and cl: "closed \<sigma> \<Longrightarrow> subs \<sigma> = []"
    and dl: "\<And>k. distinct (subs_of (subs \<sigma>) k)"
    and rg: "\<And>k s. s \<in> set (subs_of (subs \<sigma>) k) \<Longrightarrow> subject (heap \<sigma> ! s) = k \<and> once (heap \<sigma> ! s) = Once_new"
    and nw: "\<And>s. \<not> closed \<sigma> \<Longrightarrow> s < length (heap \<sigma>) \<Longrightarrow> once (heap \<sigma> ! s) = Once_new \<Longrightarrow>
              s \<in> set (subs_of (subs \<sigma>) (subject (heap \<sigma> ! s)))"
    and ne: "\<And>k. map_of (subs \<sigma>) k \<noteq> Some []"
    by (auto simp: reg_inv_def)
  from wf have wr: "\<And>k s. s \<in> set (subs_of (subs \<sigma>) k) \<Longrightarrow> s < length (heap \<sigma>)"
    by (auto simp: wf_def)
  from un have
    cnt: "\<And>s. s < length (heap \<sigma>) \<Longrightarrow>
            inside unsub_at s (procs \<sigma>) = (if once (heap \<sigma> ! s) = Once_running then 1 else 0)"
    by (auto simp: unsub_inv_def)
  from st show ?thesis
  proof (cases rule: step_cases)
    case (Call c)
    then show ?thesis using dk cl dl rg nw ne wr 
      by (auto simp: reg_inv_def nth_list_update)
  next
    case (Sub_closed i subj)
    then show ?thesis using dk cl dl rg nw ne wr 
      by (auto simp: reg_inv_def nth_list_update)
  next
    case (Sub_ok i subj)
    then show ?thesis using dk cl dl rg nw ne wr wr[of "length (heap \<sigma>)" subj]
      by (auto simp: reg_inv_def nth_append less_Suc_eq distinct_update update_conv' split: if_splits)
  next
    case (Wrk_recv i s m rest)
    then show ?thesis using dk cl dl rg nw ne wr wf_at[OF wf, of i s]
      by (auto simp: reg_inv_def nth_list_update)
  next
    case (Wrk_exit i s)
    then show ?thesis using dk cl dl rg nw ne wr wf_at[OF wf, of i s]
      by (auto simp: reg_inv_def nth_list_update)
  next
    case (Hnd_ret i s m)
    then show ?thesis using dk cl dl rg nw ne wr wf_at[OF wf, of i s]
      by (auto simp: reg_inv_def nth_list_update)
  next
    case (Pub_closed i subj msg)
    then show ?thesis using dk cl dl rg nw ne wr 
      by (auto simp: reg_inv_def nth_list_update)
  next
    case (Pub_snap i subj msg)
    then show ?thesis using dk cl dl rg nw ne wr 
      by (auto simp: reg_inv_def nth_list_update)
  next
    case (Pub_ret i msg)
    then show ?thesis using dk cl dl rg nw ne wr 
      by (auto simp: reg_inv_def nth_list_update)
  next
    case (Enq_lock i s rest msg)
    then show ?thesis using dk cl dl rg nw ne wr wf_at[OF wf, of i s]
      by (auto simp: reg_inv_def nth_list_update)
  next
    case (Enq_send i s msg rest)
    then show ?thesis using dk cl dl rg nw ne wr wf_at[OF wf, of i s]
      by (auto simp: reg_inv_def nth_list_update)
  next
    case (Enq_spawn i s msg rest)
    then show ?thesis using dk cl dl rg nw ne wr wf_at[OF wf, of i s]
      by (auto simp: reg_inv_def nth_list_update)
  next
    case (Snd_abort i s msg)
    then show ?thesis using dk cl dl rg nw ne wr wf_at[OF wf, of i s]
      by (auto simp: reg_inv_def nth_list_update)
  next
    case (Snd_send i s msg)
    then show ?thesis using dk cl dl rg nw ne wr wf_at[OF wf, of i s]
      by (auto simp: reg_inv_def nth_list_update)
  next
    case (Uns_done i s k)
    then show ?thesis using dk cl dl rg nw ne wr wf_at[OF wf, of i s]
      by (auto simp: reg_inv_def nth_list_update)
  next
    case (Uns_first i s k)
    note c = this
    have sl: "s < length (heap \<sigma>)"
      using c wf_at[OF wf, of i s] entering_sids[of "procs \<sigma> ! i" s k] by simp
    have S: "set (subs_of (subs \<sigma>') k) = set (subs_of (subs \<sigma>) k) - {s}" for k
      using c rg[of s k] dl[of k] by (auto simp: set_swap_remove)
    have D: "distinct (subs_of (subs \<sigma>') k)" for k
      using c dl by (simp add: distinct_swap_remove)
    have H: "heap \<sigma>' ! t = heap \<sigma> ! t" if "t \<noteq> s" for t
      using c that by simp
    have Hs: "once (heap \<sigma>' ! s) = Once_running" "length (heap \<sigma>') = length (heap \<sigma>)"
      "closed \<sigma>' = closed \<sigma>"
      using c sl by simp_all
    have "distinct (map fst (subs \<sigma>'))" using c dk by (simp add: distinct_remove_sub)
    moreover have "closed \<sigma>' \<longrightarrow> subs \<sigma>' = []" using c cl by auto
    moreover have "\<forall>k. \<forall>t \<in> set (subs_of (subs \<sigma>') k).
        subject (heap \<sigma>' ! t) = k \<and> once (heap \<sigma>' ! t) = Once_new"
      using S H rg by auto
    moreover have "\<not> closed \<sigma>' \<longrightarrow> (\<forall>t < length (heap \<sigma>'). once (heap \<sigma>' ! t) = Once_new \<longrightarrow>
        t \<in> set (subs_of (subs \<sigma>') (subject (heap \<sigma>' ! t))))"
    proof (intro impI allI)
      fix t assume a: "\<not> closed \<sigma>'" "t < length (heap \<sigma>')" "once (heap \<sigma>' ! t) = Once_new"
      with Hs have ts: "t \<noteq> s" by auto
      with a Hs H[OF ts] nw[of t] S show "t \<in> set (subs_of (subs \<sigma>') (subject (heap \<sigma>' ! t)))"
        by auto
    qed
    moreover have "\<forall>k. map_of (subs \<sigma>') k \<noteq> Some []"
      using c ne by (auto simp: map_of_remove_sub)
    ultimately show ?thesis using D by (simp add: reg_inv_def)
  next
    case (Uns_close i s k)
    then show ?thesis using dk cl dl rg nw ne wr wf_at[OF wf, of i s] inside_pos[of i "procs \<sigma>" unsub_at s] cnt[of s]
      by (auto simp: reg_inv_def nth_list_update split: if_splits)
  next
    case (Cls_closed i ord)
    then show ?thesis using dk cl dl rg nw ne wr 
      by (auto simp: reg_inv_def nth_list_update)
  next
    case (Cls_first i ord keys)
    then show ?thesis using dk cl dl rg nw ne wr 
      by (auto simp: reg_inv_def nth_list_update)
  next
    case (Cls_end i)
    then show ?thesis using dk cl dl rg nw ne wr 
      by (auto simp: reg_inv_def nth_list_update)
  next
    case (Cls_done i)
    then show ?thesis using dk cl dl rg nw ne wr 
      by (auto simp: reg_inv_def nth_list_update)
  next
    case (Cls_ctx i)
    then show ?thesis using dk cl dl rg nw ne wr 
      by (auto simp: reg_inv_def nth_list_update)
  next
    case (Fire i)
    then show ?thesis using inv by (simp add: reg_inv_def)
  qed
qed


section \<open>What a step of unsubscribe changes\<close>

lemma basic_step:
  "wf \<sigma> \<and> unsub_inv \<sigma> \<and> reg_inv \<sigma> \<Longrightarrow> step e \<sigma> = Ok \<sigma>' \<Longrightarrow>
   wf \<sigma>' \<and> unsub_inv \<sigma>' \<and> reg_inv \<sigma>'"
  by (blast intro: wf_step unsub_inv_step reg_inv_step)

lemma basic_exec:
  "wf \<sigma> \<and> unsub_inv \<sigma> \<and> reg_inv \<sigma> \<Longrightarrow> exec es \<sigma> = Ok \<sigma>' \<Longrightarrow>
   wf \<sigma>' \<and> unsub_inv \<sigma>' \<and> reg_inv \<sigma>'"
proof -
  assume i: "wf \<sigma> \<and> unsub_inv \<sigma> \<and> reg_inv \<sigma>" and r: "exec es \<sigma> = Ok \<sigma>'"
  show ?thesis
    by (rule exec_invariant[where I = "\<lambda>\<sigma>. wf \<sigma> \<and> unsub_inv \<sigma> \<and> reg_inv \<sigma>", OF r i])
       (rule basic_step)
qed

lemma basic_reachable:
  "exec es NewSubPub = Ok \<sigma> \<Longrightarrow> wf \<sigma> \<and> unsub_inv \<sigma> \<and> reg_inv \<sigma>"
  using basic_exec[of NewSubPub es \<sigma>] wf_init unsub_inv_init reg_inv_init by blast

lemma unsubscribing_open:
  assumes "unsub_inv \<sigma>" "wf \<sigma>" "i < length (procs \<sigma>)" "procs \<sigma> ! i = Unsubscribing s k"
  shows "s < length (heap \<sigma>) \<and> once (heap \<sigma> ! s) = Once_running \<and> \<not> shut (ch (heap \<sigma> ! s))"
proof -
  from assms have sl: "s < length (heap \<sigma>)" using wf_at[of \<sigma> i s] by simp
  from assms have "0 < inside unsub_at s (procs \<sigma>)" by (intro inside_pos[of i]) auto
  with assms(1) sl show ?thesis by (auto simp: unsub_inv_def split: if_splits)
qed

lemma unsubscribe_frame_step:
  assumes wf: "wf \<sigma>" and un: "unsub_inv \<sigma>" and rg: "reg_inv \<sigma>"
    and p: "entering (procs \<sigma> ! i) = Some (s, k) \<or> procs \<sigma> ! i = Unsubscribing s k"
    and st: "step (Sched i) \<sigma> = Ok \<sigma>'"
  shows "closed \<sigma>' = closed \<sigma> \<and> wg \<sigma>' = wg \<sigma> \<and>
     length (heap \<sigma>') = length (heap \<sigma>) \<and> length (procs \<sigma>') = length (procs \<sigma>) \<and>
     (\<forall>t. t \<noteq> s \<longrightarrow> heap \<sigma>' ! t = heap \<sigma> ! t) \<and>
     (\<forall>j. j \<noteq> i \<longrightarrow> procs \<sigma>' ! j = procs \<sigma> ! j) \<and>
     (\<forall>subj t. t \<noteq> s \<longrightarrow>
        (t \<in> set (subs_of (subs \<sigma>') subj) \<longleftrightarrow> t \<in> set (subs_of (subs \<sigma>) subj))) \<and>
     (\<forall>subj. map_of (subs \<sigma>) subj \<noteq> None \<and> map_of (subs \<sigma>') subj = None \<longrightarrow>
        subj = subject (heap \<sigma> ! s) \<and> subs_of (subs \<sigma>) subj = [s])"
  using st
proof (cases rule: step_cases)
  case (Call c)
  then show ?thesis by simp
next
  case (Sub_closed i subj)
  with p show ?thesis by simp
next
  case (Sub_ok i subj)
  with p show ?thesis by simp
next
  case (Wrk_recv i s m rest)
  with p show ?thesis by simp
next
  case (Wrk_exit i s)
  with p show ?thesis by simp
next
  case (Hnd_ret i s m)
  with p show ?thesis by simp
next
  case (Pub_closed i subj msg)
  with p show ?thesis by simp
next
  case (Pub_snap i subj msg)
  with p show ?thesis by simp
next
  case (Pub_ret i msg)
  with p show ?thesis by simp
next
  case (Enq_lock i s rest msg)
  with p show ?thesis by simp
next
  case (Enq_send i s msg rest)
  with p show ?thesis by simp
next
  case (Enq_spawn i s msg rest)
  with p show ?thesis by simp
next
  case (Snd_abort i s msg)
  with p show ?thesis by simp
next
  case (Snd_send i s msg)
  with p show ?thesis by simp
next
  case (Uns_done i s k)
  with p show ?thesis by auto
next
  case (Uns_first i s k)
  note c = this
  let ?L = "subs_of (subs \<sigma>) (subject (heap \<sigma> ! s))"
  from rg have d: "distinct ?L" and ne: "\<And>subj. map_of (subs \<sigma>) subj \<noteq> Some []"
    by (auto simp: reg_inv_def)
  have a: "\<forall>subj t. t \<noteq> s \<longrightarrow>
      (t \<in> set (subs_of (subs \<sigma>') subj) \<longleftrightarrow> t \<in> set (subs_of (subs \<sigma>) subj))"
    using c d by (auto simp: set_swap_remove split: if_splits)
  have b: "\<forall>subj. map_of (subs \<sigma>) subj \<noteq> None \<and> map_of (subs \<sigma>') subj = None \<longrightarrow>
      subj = subject (heap \<sigma> ! s) \<and> subs_of (subs \<sigma>) subj = [s]"
  proof (intro allI impI)
    fix subj assume h: "map_of (subs \<sigma>) subj \<noteq> None \<and> map_of (subs \<sigma>') subj = None"
    with c have e: "subj = subject (heap \<sigma> ! s)" "swap_remove s ?L = []"
      by (auto simp: map_of_remove_sub split: if_splits)
    from h e ne[of subj] have "?L \<noteq> []" by (auto simp: subs_of_def)
    with swap_remove_empty[OF e(2)] e(1) show "subj = subject (heap \<sigma> ! s) \<and> subs_of (subs \<sigma>) subj = [s]"
      by simp
  qed
  have f: "closed \<sigma>' = closed \<sigma> \<and> wg \<sigma>' = wg \<sigma> \<and>
       length (heap \<sigma>') = length (heap \<sigma>) \<and> length (procs \<sigma>') = length (procs \<sigma>) \<and>
       (\<forall>t. t \<noteq> s \<longrightarrow> heap \<sigma>' ! t = heap \<sigma> ! t) \<and>
       (\<forall>j. j \<noteq> i \<longrightarrow> procs \<sigma>' ! j = procs \<sigma> ! j)"
    using c by simp
  from c p have "Sched i = Sched i" by simp
  show ?thesis using f a b c(1) p c(3) by (simp only: event.inject) (auto simp: entering_Some)
next
  case (Uns_close i s k)
  with p show ?thesis by auto
next
  case (Cls_closed i ord)
  with p show ?thesis by simp
next
  case (Cls_first i ord keys)
  with p show ?thesis by simp
next
  case (Cls_end i)
  with p show ?thesis by simp
next
  case (Cls_done i)
  with p show ?thesis by simp
next
  case (Cls_ctx i)
  then show ?thesis by simp
next
  case (Fire i)
  then show ?thesis by simp
qed


section \<open>Shutdown\<close>

lemma nth_update_if: "t < length xs \<Longrightarrow> xs[s := x] ! t = (if t = s then x else xs ! t)"
  by auto

lemma filter_update_gen:
  "i < length xs \<Longrightarrow>
   length (filter P (xs[i := y])) + (if P (xs ! i) then 1 else 0) =
   length (filter P xs) + (if P y then 1 else 0)"
proof (induction xs arbitrary: i)
  case Nil
  then show ?case by simp
next
  case (Cons x xs)
  then show ?case by (cases i) auto
qed

lemma filter_pos: "i < length xs \<Longrightarrow> P (xs ! i) \<Longrightarrow> 0 < length (filter P xs)"
  by (auto simp: filter_empty_conv)

lemma filter_update:
  "i < length xs \<Longrightarrow>
   length (filter P (xs[i := y])) =
   length (filter P xs) - (if P (xs ! i) then 1 else 0) + (if P y then 1 else 0)"
  using filter_update_gen[of i xs P y] filter_pos[of i xs P] by (auto split: if_splits)

lemma filter_update_same:
  "P (xs ! i) = P y \<Longrightarrow> length (filter P (xs[i := y])) = length (filter P xs)"
  using filter_update_gen[of i xs P y]
  by (cases "i < length xs") (auto simp: not_less list_update_beyond split: if_splits)

lemma filter_none: "length (filter P xs) = 0 \<longleftrightarrow> (\<forall>p \<in> set xs. \<not> P p)"
  by (auto simp: filter_empty_conv)

lemma ex_pending_update:
  assumes "p \<in> set xs" "t \<in> pending p" "t \<in> pending (xs ! i) \<Longrightarrow> t \<in> pending y"
  shows "\<exists>q \<in> set (xs[i := y]). t \<in> pending q"
proof -
  from assms(1) obtain j where j: "j < length xs" "xs ! j = p" by (auto simp: in_set_conv_nth)
  show ?thesis
  proof (cases "j = i")
    case True
    with j assms show ?thesis by (auto intro!: bexI[of _ y] simp: set_update_memI)
  next
    case False
    with j have "xs[i := y] ! j = p" "j < length (xs[i := y])" by auto
    then have "p \<in> set (xs[i := y])" by (metis nth_mem)
    with assms(2) show ?thesis by blast
  qed
qed

lemma closer_entering: "entering p = Some (s, k) \<Longrightarrow> closer p = (k \<noteq> None)"
  by (auto simp: entering_Some)

lemma closer_Unsubscribing: "closer (Unsubscribing s k) = (k \<noteq> None)"
  by (cases k) auto

lemma closer_resume [simp]: "closer (resume s k) = (k \<noteq> None)"
  by (cases k) (auto simp: resume_def)

lemma pending_entering:
  "entering p = Some (s, k) \<Longrightarrow> pending p = (case k of None \<Rightarrow> {} | Some rest \<Rightarrow> insert s (set rest))"
  by (auto simp: entering_Some)

lemma pending_Unsubscribing:
  "pending (Unsubscribing s k) = (case k of None \<Rightarrow> {} | Some rest \<Rightarrow> set rest)"
  by (cases k) auto

lemma pending_resume [simp]:
  "pending (resume s k) = (case k of None \<Rightarrow> {} | Some rest \<Rightarrow> set rest)"
  by (cases k) (auto simp: resume_def)

lemma Close_returned_entering: "entering p = Some (s, k) \<Longrightarrow> \<not> Close_returned p"
  by (auto simp: entering_Some)

lemma Close_returned_resume [simp]: "\<not> Close_returned (resume s k)"
  by (cases k) (auto simp: resume_def)

lemma close_inv_init: "close_inv NewSubPub"
  by (simp add: close_inv_def NewSubPub_def)

lemma close_inv_step:
  assumes inv: "close_inv \<sigma>" and wf: "wf \<sigma>" and rg: "reg_inv \<sigma>" and st: "step e \<sigma> = Ok \<sigma>'"
  shows "close_inv \<sigma>'"
proof -
  from inv have
    cnt: "length (filter closer (procs \<sigma>)) = (if closed \<sigma> then 1 else 0)"
    and rt: "\<And>p. p \<in> set (procs \<sigma>) \<Longrightarrow> Close_returned p \<Longrightarrow> closed \<sigma>"
    and pd: "\<And>s. closed \<sigma> \<Longrightarrow> s < length (heap \<sigma>) \<Longrightarrow> once (heap \<sigma> ! s) = Once_new \<Longrightarrow>
              \<exists>p \<in> set (procs \<sigma>). s \<in> pending p"
    by (auto simp: close_inv_def)
  have keep: "close_inv \<sigma>'"
    if "closed \<sigma>' = closed \<sigma>" "length (heap \<sigma>') = length (heap \<sigma>)"
      "procs \<sigma>' = (procs \<sigma>)[i := y] @ qs" "i < length (procs \<sigma>)"
      "\<forall>q \<in> set qs. \<not> closer q \<and> \<not> Close_returned q"
      "closer y = closer (procs \<sigma> ! i)" "Close_returned y \<Longrightarrow> closed \<sigma>"
      "\<And>t. t < length (heap \<sigma>) \<Longrightarrow> once (heap \<sigma>' ! t) = Once_new \<Longrightarrow>
         once (heap \<sigma> ! t) = Once_new \<and> (t \<in> pending (procs \<sigma> ! i) \<longrightarrow> t \<in> pending y)"
    for i y qs
    unfolding close_inv_def
  proof (intro conjI ballI impI allI)
    show "length (filter closer (procs \<sigma>')) = (if closed \<sigma>' then 1 else 0)"
      using that cnt by (simp add: filter_update_same filter_empty_conv[THEN iffD2])
  next
    fix p assume "p \<in> set (procs \<sigma>')" "Close_returned p"
    with that rt show "closed \<sigma>'" by (auto dest!: in_set_updD)
  next
    fix t assume a: "closed \<sigma>'" "t < length (heap \<sigma>')" "once (heap \<sigma>' ! t) = Once_new"
    with that have b: "once (heap \<sigma> ! t) = Once_new" "t \<in> pending (procs \<sigma> ! i) \<Longrightarrow> t \<in> pending y"
      by auto
    from a that b pd[of t] obtain p where p: "p \<in> set (procs \<sigma>)" "t \<in> pending p" by auto
    have "\<exists>q\<in>set ((procs \<sigma>)[i := y]). t \<in> pending q"
      by (rule ex_pending_update[OF p]) (rule b(2))
    with that(3) show "\<exists>p\<in>set (procs \<sigma>'). t \<in> pending p" by auto
  qed
  from st show ?thesis
  proof (cases rule: step_cases)
    case (Call c)
    then show ?thesis using cnt rt pd by (auto simp: close_inv_def)
  next
    case (Sub_closed i subj)
    then show ?thesis by (intro keep[of i _ "[]"]) (auto simp: nth_update_if split: if_splits)
  next
    case (Sub_ok i subj)
    then show ?thesis using cnt rt pd by (auto simp: close_inv_def filter_update_same dest!: in_set_updD)
  next
    case (Wrk_recv i s m rest)
    then show ?thesis by (intro keep[of i _ "[]"]) (auto simp: nth_update_if split: if_splits)
  next
    case (Wrk_exit i s)
    then show ?thesis by (intro keep[of i _ "[]"]) (auto simp: nth_update_if split: if_splits)
  next
    case (Hnd_ret i s m)
    then show ?thesis by (intro keep[of i _ "[]"]) (auto simp: nth_update_if split: if_splits)
  next
    case (Pub_closed i subj msg)
    then show ?thesis by (intro keep[of i _ "[]"]) (auto simp: nth_update_if split: if_splits)
  next
    case (Pub_snap i subj msg)
    then show ?thesis by (intro keep[of i _ "[]"]) (auto simp: nth_update_if split: if_splits)
  next
    case (Pub_ret i msg)
    then show ?thesis by (intro keep[of i _ "[]"]) (auto simp: nth_update_if split: if_splits)
  next
    case (Enq_lock i s rest msg)
    then show ?thesis by (intro keep[of i _ "[]"]) (auto simp: nth_update_if split: if_splits)
  next
    case (Enq_send i s msg rest)
    then show ?thesis by (intro keep[of i _ "[]"]) (auto simp: nth_update_if split: if_splits)
  next
    case (Enq_spawn i s msg rest)
    then show ?thesis by (intro keep[of i _ "[Sender s msg]"]) auto
  next
    case (Snd_abort i s msg)
    then show ?thesis by (intro keep[of i _ "[]"]) (auto simp: nth_update_if split: if_splits)
  next
    case (Snd_send i s msg)
    then show ?thesis by (intro keep[of i _ "[]"]) (auto simp: nth_update_if split: if_splits)
  next
    case (Uns_done i s k)
    then show ?thesis using closer_entering[of "procs \<sigma> ! i" s k] pending_entering[of "procs \<sigma> ! i" s k] Close_returned_entering[of "procs \<sigma> ! i" s k]
      by (intro keep[of i "resume s k" "[]"]) (auto simp: closer_Unsubscribing pending_Unsubscribing split: option.splits)
  next
    case (Uns_first i s k)
    then show ?thesis using closer_entering[of "procs \<sigma> ! i" s k] pending_entering[of "procs \<sigma> ! i" s k] Close_returned_entering[of "procs \<sigma> ! i" s k]
      by (intro keep[of i "Unsubscribing s k" "[]"]) (auto simp: nth_update_if closer_Unsubscribing pending_Unsubscribing split: option.splits if_splits)
  next
    case (Uns_close i s k)
    then show ?thesis
      by (intro keep[of i "resume s k" "[]"]) (auto simp: nth_update_if closer_Unsubscribing pending_Unsubscribing split: option.splits if_splits)
  next
    case (Cls_closed i ord)
    then show ?thesis by (intro keep[of i _ "[]"]) auto
  next
    case (Cls_first i ord keys)
    note c = this
    from rg c have nw: "\<And>s. s < length (heap \<sigma>) \<Longrightarrow> once (heap \<sigma> ! s) = Once_new \<Longrightarrow>
        s \<in> set (subs_of (subs \<sigma>) (subject (heap \<sigma> ! s)))"
      by (auto simp: reg_inv_def)
    have tc: "set (concat (map (subs_of (subs \<sigma>)) keys)) = (\<Union>k. set (subs_of (subs \<sigma>) k))"
      by (rule set_toClose) (rule c(5))
    show ?thesis unfolding close_inv_def
    proof (intro conjI ballI impI allI)
      show "length (filter closer (procs \<sigma>')) = (if closed \<sigma>' then 1 else 0)"
        using c cnt by (simp add: filter_update)
    next
      fix p assume "p \<in> set (procs \<sigma>')" "Close_returned p"
      with c show "closed \<sigma>'" by simp
    next
      fix t assume "closed \<sigma>'" "t < length (heap \<sigma>')" "once (heap \<sigma>' ! t) = Once_new"
      with c nw[of t] tc have "t \<in> pending (Closing (concat (map (subs_of (subs \<sigma>)) keys)))"
        by auto
      moreover have "Closing (concat (map (subs_of (subs \<sigma>)) keys)) \<in> set (procs \<sigma>')"
        using c by (simp add: set_update_memI)
      ultimately show "\<exists>p\<in>set (procs \<sigma>'). t \<in> pending p" by blast
    qed
  next
    case (Cls_end i)
    then show ?thesis by (intro keep[of i _ "[]"]) (auto simp: nth_update_if split: if_splits)
  next
    case (Cls_done i)
    then show ?thesis using filter_pos[of i "procs \<sigma>" closer] cnt
      by (intro keep[of i _ "[]"]) (auto simp: nth_update_if split: if_splits)
  next
    case (Cls_ctx i)
    then show ?thesis using filter_pos[of i "procs \<sigma>" closer] cnt
      by (intro keep[of i _ "[]"]) (auto simp: nth_update_if split: if_splits)
  next
    case (Fire i)
    then show ?thesis using inv by (simp add: close_inv_def)
  qed
qed


section \<open>The example states are reachable\<close>

lemmas model_defs = NewSubPub_def Subscribe_def worker_def worker_cb_returns_def Publish_def
  Publish_range_def enqueue_def enqueue_select_def enqueue_go_def unsubscribe_def
  unsubscribe_close_def Close_def Close_range_def Close_done_def Close_ctx_def
  subs_of_def make_chan_def chan_send_def chan_recv_def chan_close_def remove_sub_def
  swap_remove_def resume_def

lemma two_subs_reached:
  "exec [Call (Call_Subscribe ''a''), Sched 0, Call (Call_Subscribe ''a''), Sched 2,
         Call (Call_Unsubscribe 0)] NewSubPub = Ok two_subs"
  by (simp add: model_defs two_subs_def fresh_sub_def)

lemma two_subs_removed_reached:
  "exec [Call (Call_Subscribe ''a''), Sched 0, Call (Call_Subscribe ''a''), Sched 2,
         Call (Call_Unsubscribe 0), Sched 4] NewSubPub = Ok two_subs_removed"
  by (simp add: model_defs two_subs_removed_def fresh_sub_def)

lemma two_subs_done_reached:
  "exec [Call (Call_Subscribe ''a''), Sched 0, Call (Call_Subscribe ''a''), Sched 2,
         Call (Call_Unsubscribe 0), Sched 4, Sched 4, Call (Call_Unsubscribe 0)] NewSubPub
     = Ok two_subs_done"
  by (simp add: model_defs two_subs_done_def fresh_sub_def)

lemma two_subs_step: "step (Sched 4) two_subs = Ok two_subs_removed"
  by (simp add: model_defs two_subs_def two_subs_removed_def fresh_sub_def)

lemma cancelled_bus_reached:
  "exec [Call (Call_Close []), Sched 0, Sched 0, Cancel 0, Ctx_done 0] NewSubPub = Ok cancelled_bus"
  by (simp add: model_defs cancelled_bus_def)

lemma late_calls_reached:
  "exec [Call (Call_Subscribe ''a''), Call (Call_Publish ''a'' 7)] cancelled_bus = Ok late_calls"
  by (simp add: model_defs cancelled_bus_def late_calls_def)

lemma closing_call_reached:
  "exec [Call (Call_Subscribe ''a''), Sched 0, Call (Call_Close [])] NewSubPub = Ok closing_call"
  by (simp add: model_defs closing_call_def fresh_sub_def)

lemma waiting_bus_reached:
  "exec [Call (Call_Subscribe ''a''), Sched 0, Call (Call_Close []), Sched 2, Sched 2, Sched 2,
         Sched 2, Call (Call_Close [])] NewSubPub = Ok waiting_bus"
  by (simp add: model_defs waiting_bus_def fresh_sub_def)


section \<open>Workers and the WaitGroup\<close>

lemma works_on_sids: "works_on p = Some s \<Longrightarrow> s \<in> sids_of p"
  by (cases p rule: works_on.cases) auto

lemma works_on_entering: "entering p = Some (s, k) \<Longrightarrow> works_on p = None"
  by (auto simp: entering_Some)

lemma works_on_resume [simp]: "works_on (resume s k) = None"
  by (cases k) (auto simp: resume_def)

lemma live_simps [simp]:
  "live (Worker s)" "live (Handling s m)" "\<not> live (Called c)" "\<not> live (Publishing rest m)"
  "\<not> live (Enqueuing s m rest)" "\<not> live (Sender s m)" "\<not> live (Unsubscribing s k)"
  "\<not> live (Closing rest)" "\<not> live Waiting" "\<not> live (Finished r)" "\<not> live (resume s k)"
  by (simp_all add: live_def)

lemma live_entering: "entering p = Some (s, k) \<Longrightarrow> \<not> live p"
  by (simp add: live_def works_on_entering)

lemma work_inv_init: "work_inv NewSubPub"
  by (simp add: work_inv_def NewSubPub_def)

lemma work_inv_step:
  assumes inv: "work_inv \<sigma>" and wf: "wf \<sigma>" and st: "step e \<sigma> = Ok \<sigma>'"
  shows "work_inv \<sigma>'"
proof -
  from inv have
    cnt: "wg \<sigma> = length (filter live (procs \<sigma>))"
    and em: "\<And>s. s < length (heap \<sigma>) \<Longrightarrow> inside works_on s (procs \<sigma>) = 0 \<Longrightarrow>
              buf (ch (heap \<sigma> ! s)) = [] \<and> shut (ch (heap \<sigma> ! s))"
    by (auto simp: work_inv_def)
  from st show ?thesis
  proof (cases rule: step_cases)
    case (Call c)
    then show ?thesis using cnt em by (auto simp: work_inv_def)
  next
    case (Sub_closed i subj)
    then show ?thesis using cnt em 
      by (auto simp: work_inv_def filter_update_same inside_update_same nth_update_if split: if_splits)
  next
    case (Sub_ok i subj)
    then show ?thesis using cnt em inside_fresh[OF wf, of works_on, OF works_on_sids]
      by (auto simp: work_inv_def filter_update_same inside_update_same nth_append less_Suc_eq)
  next
    case (Wrk_recv i s m rest)
    then show ?thesis using cnt em wf_at[OF wf, of i s]
      by (auto simp: work_inv_def filter_update_same inside_update_same nth_update_if split: if_splits)
  next
    case (Wrk_exit i s)
    then show ?thesis using cnt em wf_at[OF wf, of i s] filter_pos[of i "procs \<sigma>" live]
      by (auto simp: work_inv_def filter_update inside_update nth_update_if split: if_splits)
  next
    case (Hnd_ret i s m)
    then show ?thesis using cnt em wf_at[OF wf, of i s]
      by (auto simp: work_inv_def filter_update_same inside_update_same nth_update_if split: if_splits)
  next
    case (Pub_closed i subj msg)
    then show ?thesis using cnt em 
      by (auto simp: work_inv_def filter_update_same inside_update_same nth_update_if split: if_splits)
  next
    case (Pub_snap i subj msg)
    then show ?thesis using cnt em 
      by (auto simp: work_inv_def filter_update_same inside_update_same nth_update_if split: if_splits)
  next
    case (Pub_ret i msg)
    then show ?thesis using cnt em 
      by (auto simp: work_inv_def filter_update_same inside_update_same nth_update_if split: if_splits)
  next
    case (Enq_lock i s rest msg)
    then show ?thesis using cnt em wf_at[OF wf, of i s]
      by (auto simp: work_inv_def filter_update_same inside_update_same nth_update_if split: if_splits)
  next
    case (Enq_send i s msg rest)
    then show ?thesis using cnt em wf_at[OF wf, of i s]
      by (auto simp: work_inv_def filter_update_same inside_update_same nth_update_if split: if_splits)
  next
    case (Enq_spawn i s msg rest)
    then show ?thesis using cnt em wf_at[OF wf, of i s]
      by (auto simp: work_inv_def filter_update_same inside_update_same nth_update_if split: if_splits)
  next
    case (Snd_abort i s msg)
    then show ?thesis using cnt em wf_at[OF wf, of i s]
      by (auto simp: work_inv_def filter_update_same inside_update_same nth_update_if split: if_splits)
  next
    case (Snd_send i s msg)
    then show ?thesis using cnt em wf_at[OF wf, of i s]
      by (auto simp: work_inv_def filter_update_same inside_update_same nth_update_if split: if_splits)
  next
    case (Uns_done i s k)
    then show ?thesis using cnt em wf_at[OF wf, of i s] entering_sids[of "procs \<sigma> ! i" s k] works_on_entering[of "procs \<sigma> ! i" s k] live_entering[of "procs \<sigma> ! i" s k]
      by (auto simp: work_inv_def filter_update_same inside_update_same nth_update_if split: if_splits)
  next
    case (Uns_first i s k)
    then show ?thesis using cnt em wf_at[OF wf, of i s] entering_sids[of "procs \<sigma> ! i" s k] works_on_entering[of "procs \<sigma> ! i" s k] live_entering[of "procs \<sigma> ! i" s k]
      by (auto simp: work_inv_def filter_update_same inside_update_same nth_update_if split: if_splits)
  next
    case (Uns_close i s k)
    then show ?thesis using cnt em wf_at[OF wf, of i s]
      by (auto simp: work_inv_def filter_update_same inside_update_same nth_update_if split: if_splits)
  next
    case (Cls_closed i ord)
    then show ?thesis using cnt em 
      by (auto simp: work_inv_def filter_update_same inside_update_same nth_update_if split: if_splits)
  next
    case (Cls_first i ord keys)
    then show ?thesis using cnt em 
      by (auto simp: work_inv_def filter_update_same inside_update_same nth_update_if split: if_splits)
  next
    case (Cls_end i)
    then show ?thesis using cnt em 
      by (auto simp: work_inv_def filter_update_same inside_update_same nth_update_if split: if_splits)
  next
    case (Cls_done i)
    then show ?thesis using cnt em 
      by (auto simp: work_inv_def filter_update_same inside_update_same nth_update_if split: if_splits)
  next
    case (Cls_ctx i)
    then show ?thesis using cnt em 
      by (auto simp: work_inv_def filter_update_same inside_update_same nth_update_if split: if_splits)
  next
    case (Fire i)
    then show ?thesis using inv by (simp add: work_inv_def)
  qed
qed


section \<open>The mutex of a subscription\<close>

lemma lock_of_sids: "lock_of p = Some s \<Longrightarrow> s \<in> sids_of p"
  by (cases p rule: lock_of.cases) auto

lemma lock_of_entering: "entering p = Some (s, k) \<Longrightarrow> lock_of p = None"
  by (auto simp: entering_Some)

lemma lock_of_resume [simp]: "lock_of (resume s k) = None"
  by (cases k) (auto simp: resume_def)

lemma lock_of_holding: "lock_of p = Some s \<longleftrightarrow> (\<exists>m. holding p = Some (s, m))"
  by (cases p rule: lock_of.cases) auto

lemma lock_inv_init: "lock_inv NewSubPub"
  by (simp add: lock_inv_def NewSubPub_def)

lemma lock_inv_step:
  assumes inv: "lock_inv \<sigma>" and wf: "wf \<sigma>" and st: "step e \<sigma> = Ok \<sigma>'"
  shows "lock_inv \<sigma>'"
proof -
  from inv have
    cnt: "\<And>s. s < length (heap \<sigma>) \<Longrightarrow>
            inside lock_of s (procs \<sigma>) = (if sendMu (heap \<sigma> ! s) then 1 else 0)"
    by (auto simp: lock_inv_def)
  from st show ?thesis
  proof (cases rule: step_cases)
    case (Call c)
    then show ?thesis using cnt by (auto simp: lock_inv_def)
  next
    case (Sub_closed i subj)
    then show ?thesis using cnt 
      by (auto simp: lock_inv_def inside_update_same nth_update_if split: if_splits)
  next
    case (Sub_ok i subj)
    then show ?thesis using cnt inside_fresh[OF wf, of lock_of, OF lock_of_sids]
      by (auto simp: lock_inv_def inside_update_same nth_append less_Suc_eq)
  next
    case (Wrk_recv i s m rest)
    then show ?thesis using cnt wf_at[OF wf, of i s]
      by (auto simp: lock_inv_def inside_update_same nth_update_if split: if_splits)
  next
    case (Wrk_exit i s)
    then show ?thesis using cnt wf_at[OF wf, of i s]
      by (auto simp: lock_inv_def inside_update_same nth_update_if split: if_splits)
  next
    case (Hnd_ret i s m)
    then show ?thesis using cnt wf_at[OF wf, of i s]
      by (auto simp: lock_inv_def inside_update_same nth_update_if split: if_splits)
  next
    case (Pub_closed i subj msg)
    then show ?thesis using cnt 
      by (auto simp: lock_inv_def inside_update_same nth_update_if split: if_splits)
  next
    case (Pub_snap i subj msg)
    then show ?thesis using cnt 
      by (auto simp: lock_inv_def inside_update_same nth_update_if split: if_splits)
  next
    case (Pub_ret i msg)
    then show ?thesis using cnt 
      by (auto simp: lock_inv_def inside_update_same nth_update_if split: if_splits)
  next
    case (Enq_lock i s rest msg)
    then show ?thesis using cnt wf_at[OF wf, of i s] inside_pos[of i "procs \<sigma>" lock_of s]
      by (auto simp: lock_inv_def inside_update nth_update_if split: if_splits)
  next
    case (Enq_send i s msg rest)
    then show ?thesis using cnt wf_at[OF wf, of i s] inside_pos[of i "procs \<sigma>" lock_of s]
      by (auto simp: lock_inv_def inside_update nth_update_if split: if_splits)
  next
    case (Enq_spawn i s msg rest)
    then show ?thesis using cnt wf_at[OF wf, of i s] inside_pos[of i "procs \<sigma>" lock_of s]
      by (auto simp: lock_inv_def inside_update nth_update_if split: if_splits)
  next
    case (Snd_abort i s msg)
    then show ?thesis using cnt wf_at[OF wf, of i s] inside_pos[of i "procs \<sigma>" lock_of s]
      by (auto simp: lock_inv_def inside_update nth_update_if split: if_splits)
  next
    case (Snd_send i s msg)
    then show ?thesis using cnt wf_at[OF wf, of i s] inside_pos[of i "procs \<sigma>" lock_of s]
      by (auto simp: lock_inv_def inside_update nth_update_if split: if_splits)
  next
    case (Uns_done i s k)
    then show ?thesis using cnt wf_at[OF wf, of i s] entering_sids[of "procs \<sigma> ! i" s k] lock_of_entering[of "procs \<sigma> ! i" s k]
      by (auto simp: lock_inv_def inside_update_same nth_update_if split: if_splits)
  next
    case (Uns_first i s k)
    then show ?thesis using cnt wf_at[OF wf, of i s] entering_sids[of "procs \<sigma> ! i" s k] lock_of_entering[of "procs \<sigma> ! i" s k]
      by (auto simp: lock_inv_def inside_update_same nth_update_if split: if_splits)
  next
    case (Uns_close i s k)
    then show ?thesis using cnt wf_at[OF wf, of i s]
      by (auto simp: lock_inv_def inside_update_same nth_update_if split: if_splits)
  next
    case (Cls_closed i ord)
    then show ?thesis using cnt 
      by (auto simp: lock_inv_def inside_update_same nth_update_if split: if_splits)
  next
    case (Cls_first i ord keys)
    then show ?thesis using cnt 
      by (auto simp: lock_inv_def inside_update_same nth_update_if split: if_splits)
  next
    case (Cls_end i)
    then show ?thesis using cnt 
      by (auto simp: lock_inv_def inside_update_same nth_update_if split: if_splits)
  next
    case (Cls_done i)
    then show ?thesis using cnt 
      by (auto simp: lock_inv_def inside_update_same nth_update_if split: if_splits)
  next
    case (Cls_ctx i)
    then show ?thesis using cnt 
      by (auto simp: lock_inv_def inside_update_same nth_update_if split: if_splits)
  next
    case (Fire i)
    then show ?thesis using inv by (simp add: lock_inv_def)
  qed
qed


section \<open>First in, first out\<close>

lemma holding_sids: "holding p = Some (s, m) \<Longrightarrow> s \<in> sids_of p"
  by (cases p rule: holding.cases) auto

lemma holding_entering: "entering p = Some (s, k) \<Longrightarrow> holding p = None"
  by (auto simp: entering_Some)

lemma holding_resume [simp]: "holding (resume s k) = None"
  by (cases k) (auto simp: resume_def)

lemma no_holder:
  assumes "lock_inv \<sigma>" "s < length (heap \<sigma>)" "\<not> sendMu (heap \<sigma> ! s)" "p \<in> set (procs \<sigma>)"
  shows "holding p \<noteq> Some (s, m)"
proof -
  from assms(1-3) have "inside lock_of s (procs \<sigma>) = 0" by (simp add: lock_inv_def)
  with assms(4) have "lock_of p \<noteq> Some s" by (simp add: inside_zero)
  then show ?thesis by (simp add: lock_of_holding)
qed

lemma fifo_inv_init: "fifo_inv NewSubPub"
  by (simp add: fifo_inv_def NewSubPub_def)

lemma fifo_shape:
  assumes inv: "fifo_inv \<sigma>"
    and h: "heap \<sigma>' = (heap \<sigma>)[s := y]" "s < length (heap \<sigma>)"
    and p: "set (procs \<sigma>') \<subseteq> set (procs \<sigma>) \<union> N"
    and y: "sub_fifo y"
    and new: "\<And>p t m. p \<in> N \<Longrightarrow> holding p = Some (t, m) \<Longrightarrow> t = s"
    and hs: "\<And>p m. p \<in> set (procs \<sigma>') \<Longrightarrow> holding p = Some (s, m) \<Longrightarrow> \<not> shut (ch y) \<Longrightarrow>
               map fst (accepted y) = queued y @ [m]"
  shows "fifo_inv \<sigma>'"
  unfolding fifo_inv_def
proof (intro conjI ballI allI impI)
  fix x assume "x \<in> set (heap \<sigma>')"
  with h y inv show "sub_fifo x" by (auto simp: fifo_inv_def dest!: in_set_updD)
next
  fix q t m assume a: "q \<in> set (procs \<sigma>')" "holding q = Some (t, m) \<and> \<not> shut (ch (heap \<sigma>' ! t))"
  show "map fst (accepted (heap \<sigma>' ! t)) = queued (heap \<sigma>' ! t) @ [m]"
  proof (cases "t = s")
    case True
    with a h hs[of q m] show ?thesis by simp
  next
    case False
    with a new[of q t m] p have "q \<in> set (procs \<sigma>)" by auto
    with False a h inv show ?thesis by (simp add: fifo_inv_def)
  qed
qed

lemma fifo_inv_step:
  assumes inv: "fifo_inv \<sigma>" and wf: "wf \<sigma>" and lk: "lock_inv \<sigma>" and st: "step e \<sigma> = Ok \<sigma>'"
  shows "fifo_inv \<sigma>'"
proof -
  have F: "\<And>s. s < length (heap \<sigma>) \<Longrightarrow> sub_fifo (heap \<sigma> ! s)"
    using inv by (simp add: fifo_inv_def)
  have D: "\<And>p s m. p \<in> set (procs \<sigma>) \<Longrightarrow> holding p = Some (s, m) \<Longrightarrow> \<not> shut (ch (heap \<sigma> ! s)) \<Longrightarrow>
          map fst (accepted (heap \<sigma> ! s)) = queued (heap \<sigma> ! s) @ [m]"
    using inv by (auto simp: fifo_inv_def)
  from lock_inv_step[OF lk wf st] have lk': "lock_inv \<sigma>'" .
  have pi: "\<And>i. i < length (procs \<sigma>) \<Longrightarrow> procs \<sigma> ! i \<in> set (procs \<sigma>)" by simp
  have same: "fifo_inv \<sigma>'" if "heap \<sigma>' = heap \<sigma>" "set (procs \<sigma>') \<subseteq> set (procs \<sigma>) \<union> N"
    "\<And>p. p \<in> N \<Longrightarrow> holding p = None" for N
    unfolding fifo_inv_def
  proof (intro conjI ballI allI impI)
    fix x assume "x \<in> set (heap \<sigma>')"
    with that(1) inv show "sub_fifo x" by (simp add: fifo_inv_def)
  next
    fix q t m assume a: "q \<in> set (procs \<sigma>')" "holding q = Some (t, m) \<and> \<not> shut (ch (heap \<sigma>' ! t))"
    from a(1) that(2) have "q \<in> set (procs \<sigma>) \<or> q \<in> N" by auto
    with that(3)[of q] a(2) have "q \<in> set (procs \<sigma>)" by auto
    with a(2) that(1) D[of q t m] show "map fst (accepted (heap \<sigma>' ! t)) = queued (heap \<sigma>' ! t) @ [m]"
      by simp
  qed
  from st show ?thesis
  proof (cases rule: step_cases)
    case (Call c)
    then show ?thesis by (intro same[of "{Called c}"]) auto
  next
    case (Sub_closed i subj)
    then show ?thesis by (intro same[of "{Finished (Ret_Subscribe (Inl ErrClosed))}"]) (auto dest!: in_set_updD)
  next
    case (Sub_ok i subj)
    note c = this
    have hs: "\<And>p s m. p \<in> set (procs \<sigma>) \<Longrightarrow> holding p = Some (s, m) \<Longrightarrow> s < length (heap \<sigma>)"
      using wf holding_sids by (fastforce simp: wf_def)
    show ?thesis unfolding fifo_inv_def
    proof (intro conjI ballI allI impI)
      fix x assume "x \<in> set (heap \<sigma>')"
      with c inv show "sub_fifo x" by (auto simp: fifo_inv_def sub_fifo_def)
    next
      fix q t m assume a: "q \<in> set (procs \<sigma>')" "holding q = Some (t, m) \<and> \<not> shut (ch (heap \<sigma>' ! t))"
      with c have q: "q \<in> set (procs \<sigma>)" by (auto dest!: in_set_updD)
      with a hs[of q t m] have "t < length (heap \<sigma>)" by simp
      with a q c D[of q t m] show "map fst (accepted (heap \<sigma>' ! t)) = queued (heap \<sigma>' ! t) @ [m]"
        by (simp add: nth_append)
    qed
  next
    case (Wrk_recv i s m rest)
    note c = this
    have sl: "s < length (heap \<sigma>)" using c wf_at[OF wf, of i s] by simp
    let ?y = "(heap \<sigma> ! s)\<lparr>ch := (ch (heap \<sigma> ! s))\<lparr>buf := rest\<rparr>, cb_calls := cb_calls (heap \<sigma> ! s) @ [m]\<rparr>"
    show ?thesis
    proof (rule fifo_shape[OF inv, of _ s ?y "{Handling s m}"])
      show "sub_fifo ?y" using F[OF sl] c by (auto simp: sub_fifo_def)
    next
      fix p ma assume "p \<in> set (procs \<sigma>')" "holding p = Some (s, ma)" "\<not> shut (ch ?y)"
      with c D[of p s ma] show "map fst (accepted ?y) = queued ?y @ [ma]"
        by (auto dest!: in_set_updD)
    qed (use c sl in \<open>auto dest!: in_set_updD\<close>)
  next
    case (Wrk_exit i s)
    then show ?thesis by (intro same[of "{Finished Ret_go}"]) (auto dest!: in_set_updD)
  next
    case (Hnd_ret i s m)
    then show ?thesis by (intro same[of "{Worker s}"]) (auto dest!: in_set_updD)
  next
    case (Pub_closed i subj msg)
    then show ?thesis by (intro same[of "{Finished (Ret_Publish (Some ErrClosed))}"]) (auto dest!: in_set_updD)
  next
    case (Pub_snap i subj msg)
    then show ?thesis by (intro same[of "{Publishing (subs_of (subs \<sigma>) subj) msg}"]) (auto dest!: in_set_updD)
  next
    case (Pub_ret i msg)
    then show ?thesis by (intro same[of "{Finished (Ret_Publish None)}"]) (auto dest!: in_set_updD)
  next
    case (Enq_lock i s rest msg)
    note c = this
    have sl: "s < length (heap \<sigma>)" using c wf_at[OF wf, of i s] by simp
    let ?y = "(heap \<sigma> ! s)\<lparr>sendMu := True,
        accepted := accepted (heap \<sigma> ! s) @ [(msg, i, length (procs \<sigma>))]\<rparr>"
    show ?thesis
    proof (rule fifo_shape[OF inv, of _ s ?y "{Enqueuing s msg rest}"])
      show "sub_fifo ?y" using F[OF sl] by (auto simp: sub_fifo_def)
    next
      fix p ma assume a: "p \<in> set (procs \<sigma>')" "holding p = Some (s, ma)" "\<not> shut (ch ?y)"
      with c no_holder[OF lk sl, of p ma] have "ma = msg" by (auto dest!: in_set_updD)
      with a c F[OF sl] show "map fst (accepted ?y) = queued ?y @ [ma]"
        by (auto simp: sub_fifo_def)
    qed (use c sl in \<open>auto dest!: in_set_updD\<close>)
  next
    case (Enq_send i s msg rest)
    note c = this
    have sl: "s < length (heap \<sigma>)" using c wf_at[OF wf, of i s] by simp
    let ?y = "(heap \<sigma> ! s)\<lparr>ch := (ch (heap \<sigma> ! s))\<lparr>buf := buf (ch (heap \<sigma> ! s)) @ [msg]\<rparr>,
        sendMu := False, queued := queued (heap \<sigma> ! s) @ [msg]\<rparr>"
    have d: "map fst (accepted (heap \<sigma> ! s)) = queued (heap \<sigma> ! s) @ [msg]"
      using D[of "procs \<sigma> ! i" s msg] c pi[of i] by simp
    show ?thesis
    proof (rule fifo_shape[OF inv, of _ s ?y "{Publishing rest msg}"])
      show "sub_fifo ?y" using F[OF sl] d by (auto simp: sub_fifo_def)
    next
      fix p ma assume a: "p \<in> set (procs \<sigma>')" "holding p = Some (s, ma)" "\<not> shut (ch ?y)"
      with c sl no_holder[OF lk', of s p ma] show "map fst (accepted ?y) = queued ?y @ [ma]"
        by simp
    qed (use c sl in \<open>auto dest!: in_set_updD\<close>)
  next
    case (Enq_spawn i s msg rest)
    note c = this
    have sl: "s < length (heap \<sigma>)" using c wf_at[OF wf, of i s] by simp
    show ?thesis
    proof (rule fifo_shape[OF inv, of _ s "heap \<sigma> ! s" "{Publishing rest msg, Sender s msg}"])
      show "sub_fifo (heap \<sigma> ! s)" by (rule F[OF sl])
    next
      fix p ma assume a: "p \<in> set (procs \<sigma>')" "holding p = Some (s, ma)" "\<not> shut (ch (heap \<sigma> ! s))"
      with c D[of p s ma] D[of "procs \<sigma> ! i" s msg] pi[of i]
      show "map fst (accepted (heap \<sigma> ! s)) = queued (heap \<sigma> ! s) @ [ma]"
        by (auto dest!: in_set_updD)
    qed (use c sl in \<open>auto dest!: in_set_updD\<close>)
  next
    case (Snd_abort i s msg)
    note c = this
    have sl: "s < length (heap \<sigma>)" using c wf_at[OF wf, of i s] by simp
    show ?thesis
    proof (rule fifo_shape[OF inv, of _ s "(heap \<sigma> ! s)\<lparr>sendMu := False\<rparr>" "{Finished Ret_go}"])
      show "sub_fifo ((heap \<sigma> ! s)\<lparr>sendMu := False\<rparr>)" using F[OF sl] c by (auto simp: sub_fifo_def)
    qed (use c sl in \<open>auto dest!: in_set_updD\<close>)
  next
    case (Snd_send i s msg)
    note c = this
    have sl: "s < length (heap \<sigma>)" using c wf_at[OF wf, of i s] by simp
    let ?y = "(heap \<sigma> ! s)\<lparr>ch := (ch (heap \<sigma> ! s))\<lparr>buf := buf (ch (heap \<sigma> ! s)) @ [msg]\<rparr>,
        sendMu := False, queued := queued (heap \<sigma> ! s) @ [msg]\<rparr>"
    have d: "map fst (accepted (heap \<sigma> ! s)) = queued (heap \<sigma> ! s) @ [msg]"
      using D[of "procs \<sigma> ! i" s msg] c pi[of i] by simp
    show ?thesis
    proof (rule fifo_shape[OF inv, of _ s ?y "{Finished Ret_go}"])
      show "sub_fifo ?y" using F[OF sl] d by (auto simp: sub_fifo_def)
    next
      fix p ma assume a: "p \<in> set (procs \<sigma>')" "holding p = Some (s, ma)" "\<not> shut (ch ?y)"
      with c sl no_holder[OF lk', of s p ma] show "map fst (accepted ?y) = queued ?y @ [ma]"
        by simp
    qed (use c sl in \<open>auto dest!: in_set_updD\<close>)
  next
    case (Uns_done i s k)
    then show ?thesis by (intro same[of "{resume s k}"]) (auto dest!: in_set_updD)
  next
    case (Uns_first i s k)
    note c = this
    have sl: "s < length (heap \<sigma>)"
      using c wf_at[OF wf, of i s] entering_sids[of "procs \<sigma> ! i" s k] by simp
    show ?thesis
    proof (rule fifo_shape[OF inv, of _ s "(heap \<sigma> ! s)\<lparr>once := Once_running\<rparr>" "{Unsubscribing s k}"])
      show "sub_fifo ((heap \<sigma> ! s)\<lparr>once := Once_running\<rparr>)" using F[OF sl] by (auto simp: sub_fifo_def)
    next
      fix p ma assume "p \<in> set (procs \<sigma>')" "holding p = Some (s, ma)"
        "\<not> shut (ch ((heap \<sigma> ! s)\<lparr>once := Once_running\<rparr>))"
      with c D[of p s ma]
      show "map fst (accepted ((heap \<sigma> ! s)\<lparr>once := Once_running\<rparr>)) =
            queued ((heap \<sigma> ! s)\<lparr>once := Once_running\<rparr>) @ [ma]"
        by (auto dest!: in_set_updD)
    qed (use c sl in \<open>auto dest!: in_set_updD\<close>)
  next
    case (Uns_close i s k)
    note c = this
    have sl: "s < length (heap \<sigma>)" using c wf_at[OF wf, of i s] by simp
    let ?y = "(heap \<sigma> ! s)\<lparr>ch := (ch (heap \<sigma> ! s))\<lparr>shut := True\<rparr>, once := Once_done\<rparr>"
    show ?thesis
    proof (rule fifo_shape[OF inv, of _ s ?y "{resume s k}"])
      show "sub_fifo ?y" using F[OF sl] by (auto simp: sub_fifo_def)
    qed (use c sl in \<open>auto dest!: in_set_updD\<close>)
  next
    case (Cls_closed i ord)
    then show ?thesis by (intro same[of "{Finished (Ret_Close (Some ErrClosed))}"]) (auto dest!: in_set_updD)
  next
    case (Cls_first i ord keys)
    then show ?thesis by (intro same[of "{Closing (concat (map (subs_of (subs \<sigma>)) keys))}"]) (auto dest!: in_set_updD)
  next
    case (Cls_end i)
    then show ?thesis by (intro same[of "{Waiting}"]) (auto dest!: in_set_updD)
  next
    case (Cls_done i)
    then show ?thesis by (intro same[of "{Finished (Ret_Close None)}"]) (auto dest!: in_set_updD)
  next
    case (Cls_ctx i)
    then show ?thesis by (intro same[of "{Finished (Ret_Close (Some CtxErr))}"]) (auto dest!: in_set_updD)
  next
    case (Fire i)
    then show ?thesis using inv by (simp add: fifo_inv_def)
  qed
qed

lemma handled_accepted:
  assumes "sub_fifo x" and "k < length (cb_calls x)"
  shows "k < length (accepted x) \<and> cb_calls x ! k = fst (accepted x ! k)"
proof -
  from assms(1) have "prefix (cb_calls x @ buf (ch x)) (map fst (accepted x))"
    by (auto simp: sub_fifo_def)
  then obtain zs where z: "map fst (accepted x) = cb_calls x @ buf (ch x) @ zs"
    by (auto simp: prefix_def)
  then have "length (accepted x) = length (cb_calls x @ buf (ch x) @ zs)"
    by (metis length_map)
  with assms(2) have l: "k < length (accepted x)" by simp
  from z have "map fst (accepted x) ! k = (cb_calls x @ buf (ch x) @ zs) ! k" by simp
  with l assms(2) show ?thesis by (simp add: nth_append)
qed


section \<open>The stamps of the accepted calls\<close>

lemma sub_time_acc:
  "sub_time n x0 \<Longrightarrow> accepted x = accepted x0 \<Longrightarrow> n \<le> n' \<Longrightarrow> sub_time n' x"
  by (fastforce simp: sub_time_def)

lemma sub_time_snoc:
  "sub_time n x0 \<Longrightarrow> accepted x = accepted x0 @ [(m, i, n)] \<Longrightarrow> i < n \<Longrightarrow> sub_time n x"
  by (auto simp: sub_time_def sorted_wrt_append called_at_def accepted_at_def)

lemma time_inv_init: "time_inv NewSubPub"
  by (simp add: time_inv_def NewSubPub_def)

lemma time_inv_step:
  assumes inv: "time_inv \<sigma>" and wf: "wf \<sigma>" and st: "step e \<sigma> = Ok \<sigma>'"
  shows "time_inv \<sigma>'"
proof -
  have T: "\<And>x. x \<in> set (heap \<sigma>) \<Longrightarrow> sub_time (length (procs \<sigma>)) x"
    using inv by (simp add: time_inv_def)
  have Ts: "\<And>s. s < length (heap \<sigma>) \<Longrightarrow> sub_time (length (procs \<sigma>)) (heap \<sigma> ! s)"
    using T by simp
  have am: "\<And>s. s < length (heap \<sigma>) \<Longrightarrow> accepted (heap \<sigma> ! s) \<in> accepted ` set (heap \<sigma>)"
    by simp
  have keep: "time_inv \<sigma>'"
    if "length (procs \<sigma>) \<le> length (procs \<sigma>')"
      "\<And>x. x \<in> set (heap \<sigma>') \<Longrightarrow> accepted x = [] \<or> accepted x \<in> accepted ` set (heap \<sigma>)"
    unfolding time_inv_def
  proof
    fix x assume "x \<in> set (heap \<sigma>')"
    from that(2)[OF this] show "sub_time (length (procs \<sigma>')) x"
    proof
      assume "accepted x = []"
      then show ?thesis by (simp add: sub_time_def)
    next
      assume "accepted x \<in> accepted ` set (heap \<sigma>)"
      then obtain x0 where "x0 \<in> set (heap \<sigma>)" "accepted x = accepted x0" by auto
      with T[of x0] that(1) show ?thesis by (auto intro: sub_time_acc)
    qed
  qed
  from st show ?thesis
  proof (cases rule: step_cases)
    case (Call c)
    then show ?thesis by (intro keep) (auto dest!: in_set_updD)
  next
    case (Sub_closed i subj)
    then show ?thesis by (intro keep) (auto dest!: in_set_updD)
  next
    case (Sub_ok i subj)
    then show ?thesis by (intro keep) auto
  next
    case (Wrk_recv i s m rest)
    then show ?thesis using am[of s] wf_at[OF wf, of i s]
      by (intro keep) (auto dest!: in_set_updD)
  next
    case (Wrk_exit i s)
    then show ?thesis using am[of s] wf_at[OF wf, of i s]
      by (intro keep) (auto dest!: in_set_updD)
  next
    case (Hnd_ret i s m)
    then show ?thesis using am[of s] wf_at[OF wf, of i s]
      by (intro keep) (auto dest!: in_set_updD)
  next
    case (Pub_closed i subj msg)
    then show ?thesis by (intro keep) (auto dest!: in_set_updD)
  next
    case (Pub_snap i subj msg)
    then show ?thesis by (intro keep) (auto dest!: in_set_updD)
  next
    case (Pub_ret i msg)
    then show ?thesis by (intro keep) (auto dest!: in_set_updD)
  next
    case (Enq_lock i s rest msg)
    note c = this
    have sl: "s < length (heap \<sigma>)" using c wf_at[OF wf, of i s] by simp
    show ?thesis unfolding time_inv_def
    proof
      fix x assume "x \<in> set (heap \<sigma>')"
      with c have "x = (heap \<sigma> ! s)\<lparr>sendMu := True,
          accepted := accepted (heap \<sigma> ! s) @ [(msg, i, length (procs \<sigma>))]\<rparr> \<or> x \<in> set (heap \<sigma>)"
        by (auto dest!: in_set_updD)
      then show "sub_time (length (procs \<sigma>')) x"
      proof
        assume "x \<in> set (heap \<sigma>)"
        with T[of x] c show ?thesis by simp
      next
        assume x: "x = (heap \<sigma> ! s)\<lparr>sendMu := True,
          accepted := accepted (heap \<sigma> ! s) @ [(msg, i, length (procs \<sigma>))]\<rparr>"
        have "sub_time (length (procs \<sigma>)) x"
          by (rule sub_time_snoc[OF Ts[OF sl], of _ msg i]) (use x c in simp_all)
        with c show ?thesis by simp
      qed
    qed
  next
    case (Enq_send i s msg rest)
    then show ?thesis using am[of s] wf_at[OF wf, of i s]
      by (intro keep) (auto dest!: in_set_updD)
  next
    case (Enq_spawn i s msg rest)
    then show ?thesis using am[of s] wf_at[OF wf, of i s]
      by (intro keep) (auto dest!: in_set_updD)
  next
    case (Snd_abort i s msg)
    then show ?thesis using am[of s] wf_at[OF wf, of i s]
      by (intro keep) (auto dest!: in_set_updD)
  next
    case (Snd_send i s msg)
    then show ?thesis using am[of s] wf_at[OF wf, of i s]
      by (intro keep) (auto dest!: in_set_updD)
  next
    case (Uns_done i s k)
    then show ?thesis by (intro keep) (auto dest!: in_set_updD)
  next
    case (Uns_first i s k)
    then show ?thesis using am[of s] wf_at[OF wf, of i s] entering_sids[of "procs \<sigma> ! i" s k]
      by (intro keep) (auto dest!: in_set_updD)
  next
    case (Uns_close i s k)
    then show ?thesis using am[of s] wf_at[OF wf, of i s]
      by (intro keep) (auto dest!: in_set_updD)
  next
    case (Cls_closed i ord)
    then show ?thesis by (intro keep) (auto dest!: in_set_updD)
  next
    case (Cls_first i ord keys)
    then show ?thesis by (intro keep) (auto dest!: in_set_updD)
  next
    case (Cls_end i)
    then show ?thesis by (intro keep) (auto dest!: in_set_updD)
  next
    case (Cls_done i)
    then show ?thesis by (intro keep) (auto dest!: in_set_updD)
  next
    case (Cls_ctx i)
    then show ?thesis by (intro keep) (auto dest!: in_set_updD)
  next
    case (Fire i)
    then show ?thesis using inv by (simp add: time_inv_def)
  qed
qed


section \<open>Every reachable state satisfies the invariants\<close>

lemma invs_init: "invs NewSubPub"
  by (simp add: invs_def wf_init unsub_inv_init reg_inv_init close_inv_init work_inv_init
      lock_inv_init fifo_inv_init time_inv_init)

lemma invs_step: "invs \<sigma> \<Longrightarrow> step e \<sigma> = Ok \<sigma>' \<Longrightarrow> invs \<sigma>'"
  unfolding invs_def
  by (intro conjI)
     (blast intro: wf_step unsub_inv_step reg_inv_step close_inv_step work_inv_step
        lock_inv_step fifo_inv_step time_inv_step)+

lemma invs_exec: "invs \<sigma> \<Longrightarrow> exec es \<sigma> = Ok \<sigma>' \<Longrightarrow> invs \<sigma>'"
proof -
  assume i: "invs \<sigma>" and r: "exec es \<sigma> = Ok \<sigma>'"
  show ?thesis by (rule exec_invariant[where I = invs, OF r i]) (rule invs_step)
qed

lemma invs_reachable: "exec es NewSubPub = Ok \<sigma> \<Longrightarrow> invs \<sigma>"
  by (rule invs_exec[OF invs_init])


section \<open>A closed bus stays closed\<close>

lemma keys_remove_sub: "fst ` set (remove_sub s subj m) \<subseteq> fst ` set m"
proof (cases "map_of m subj")
  case None
  then show ?thesis by (simp add: remove_sub_def)
next
  case (Some list)
  then have "subj \<in> fst ` set m" by (auto dest: map_of_SomeD intro: rev_image_eqI)
  with Some show ?thesis
    using update_keys[of subj "swap_remove s list" m] delete_keys[of subj m]
    by (auto simp: remove_sub_def Let_def simp flip: set_map)
qed

lemma closed_step:
  assumes cl: "closed \<sigma>" and st: "step e \<sigma> = Ok \<sigma>'"
  shows "closed \<sigma>' \<and> (\<forall>k. set (subs_of (subs \<sigma>') k) \<subseteq> set (subs_of (subs \<sigma>) k)) \<and>
         fst ` set (subs \<sigma>') \<subseteq> fst ` set (subs \<sigma>)"
  using st
proof (cases rule: step_cases)
  case (Call c)
  then show ?thesis using cl by auto
next
  case (Sub_closed i subj)
  then show ?thesis using cl by auto
next
  case (Sub_ok i subj)
  then show ?thesis using cl by auto
next
  case (Wrk_recv i s m rest)
  then show ?thesis using cl by auto
next
  case (Wrk_exit i s)
  then show ?thesis using cl by auto
next
  case (Hnd_ret i s m)
  then show ?thesis using cl by auto
next
  case (Pub_closed i subj msg)
  then show ?thesis using cl by auto
next
  case (Pub_snap i subj msg)
  then show ?thesis using cl by auto
next
  case (Pub_ret i msg)
  then show ?thesis using cl by auto
next
  case (Enq_lock i s rest msg)
  then show ?thesis using cl by auto
next
  case (Enq_send i s msg rest)
  then show ?thesis using cl by auto
next
  case (Enq_spawn i s msg rest)
  then show ?thesis using cl by auto
next
  case (Snd_abort i s msg)
  then show ?thesis using cl by auto
next
  case (Snd_send i s msg)
  then show ?thesis using cl by auto
next
  case (Uns_done i s k)
  then show ?thesis using cl by auto
next
  case (Uns_first i s k)
  then show ?thesis using cl keys_remove_sub[of s "subject (heap \<sigma> ! s)" "subs \<sigma>"]
      set_swap_remove_subset[of s "subs_of (subs \<sigma>) (subject (heap \<sigma> ! s))"] by auto
next
  case (Uns_close i s k)
  then show ?thesis using cl by auto
next
  case (Cls_closed i ord)
  then show ?thesis using cl by auto
next
  case (Cls_first i ord keys)
  then show ?thesis using cl by auto
next
  case (Cls_end i)
  then show ?thesis using cl by auto
next
  case (Cls_done i)
  then show ?thesis using cl by auto
next
  case (Cls_ctx i)
  then show ?thesis using cl by auto
next
  case (Fire i)
  then show ?thesis using cl by simp
qed

lemma closed_exec:
  "closed \<sigma> \<Longrightarrow> exec es \<sigma> = Ok \<sigma>' \<Longrightarrow>
   closed \<sigma>' \<and> (\<forall>k. set (subs_of (subs \<sigma>') k) \<subseteq> set (subs_of (subs \<sigma>) k)) \<and>
   fst ` set (subs \<sigma>') \<subseteq> fst ` set (subs \<sigma>)"
proof (induction es arbitrary: \<sigma>)
  case Nil
  then show ?case by simp
next
  case (Cons e es)
  from Cons.prems(2) obtain \<sigma>1 where s1: "step e \<sigma> = Ok \<sigma>1" and r: "exec es \<sigma>1 = Ok \<sigma>'"
    by (auto split: result.splits)
  from closed_step[OF Cons.prems(1) s1] Cons.IH[OF _ r] show ?case by blast
qed


section \<open>The results of Close\<close>

lemma result_inv_init: "result_inv NewSubPub"
  by (simp add: result_inv_def NewSubPub_def)

lemma result_inv_step:
  assumes inv: "result_inv \<sigma>" and ci: "close_inv \<sigma>" and st: "step e \<sigma> = Ok \<sigma>'"
  shows "result_inv \<sigma>'"
proof -
  from inv have
    nl: "Finished (Ret_Close None) \<in> set (procs \<sigma>) \<Longrightarrow> wg \<sigma> = 0"
    and cx: "\<And>j. j < length (procs \<sigma>) \<Longrightarrow> procs \<sigma> ! j = Finished (Ret_Close (Some CtxErr)) \<Longrightarrow>
               j \<in> set (fired \<sigma>)"
    by (auto simp: result_inv_def)
  from ci have rt: "\<And>p. p \<in> set (procs \<sigma>) \<Longrightarrow> Close_returned p \<Longrightarrow> closed \<sigma>"
    by (auto simp: close_inv_def)
  have keep: "result_inv \<sigma>'"
    if p: "procs \<sigma>' = (procs \<sigma>)[i := y] @ qs"
      and w: "Finished (Ret_Close None) \<in> set (procs \<sigma>) \<Longrightarrow> wg \<sigma>' \<le> wg \<sigma>"
      and f: "set (fired \<sigma>) \<subseteq> set (fired \<sigma>')"
      and yn: "y = Finished (Ret_Close None) \<Longrightarrow> wg \<sigma>' = 0"
      and yc: "y = Finished (Ret_Close (Some CtxErr)) \<Longrightarrow> i \<in> set (fired \<sigma>')"
      and q: "\<forall>q \<in> set qs. q \<noteq> Finished (Ret_Close None) \<and> q \<noteq> Finished (Ret_Close (Some CtxErr))"
    for i y qs
    unfolding result_inv_def
  proof (intro conjI impI allI)
    assume "Finished (Ret_Close None) \<in> set (procs \<sigma>')"
    with p q have "Finished (Ret_Close None) = y \<or> Finished (Ret_Close None) \<in> set (procs \<sigma>)"
      by (auto dest!: in_set_updD)
    then show "wg \<sigma>' = 0"
    proof
      assume "Finished (Ret_Close None) = y"
      then show ?thesis using yn by simp
    next
      assume a: "Finished (Ret_Close None) \<in> set (procs \<sigma>)"
      from nl[OF a] w[OF a] show ?thesis by simp
    qed
  next
    fix j assume j: "j < length (procs \<sigma>')" "procs \<sigma>' ! j = Finished (Ret_Close (Some CtxErr))"
    show "j \<in> set (fired \<sigma>')"
    proof (cases "j < length (procs \<sigma>)")
      case True
      with j(2) p have "(if j = i then y else procs \<sigma> ! j) = Finished (Ret_Close (Some CtxErr))"
        by (simp add: nth_append nth_update_if)
      then show ?thesis using yc cx[OF True] f by (auto split: if_splits)
    next
      case False
      with j p have "qs ! (j - length (procs \<sigma>)) = Finished (Ret_Close (Some CtxErr))"
        "j - length (procs \<sigma>) < length qs"
        by (auto simp: nth_append)
      then have "Finished (Ret_Close (Some CtxErr)) \<in> set qs" by (metis nth_mem)
      with q show ?thesis by blast
    qed
  qed
  from st show ?thesis
  proof (cases rule: step_cases)
    case (Call c)
    then show ?thesis by (intro keep[of "length (procs \<sigma>)" "Called c" "[Called c]"]) (auto simp: list_update_beyond)
  next
    case (Sub_closed i subj)
    then show ?thesis by (intro keep[of i _ "[]"]) (auto simp: resume_def split: option.splits)
  next
    case (Sub_ok i subj)
    then show ?thesis using rt[of "Finished (Ret_Close None)"]
      by (intro keep[of i _ "[Worker (length (heap \<sigma>))]"]) auto
  next
    case (Wrk_recv i s m rest)
    then show ?thesis by (intro keep[of i _ "[]"]) (auto simp: resume_def split: option.splits)
  next
    case (Wrk_exit i s)
    then show ?thesis by (intro keep[of i _ "[]"]) (auto simp: resume_def split: option.splits)
  next
    case (Hnd_ret i s m)
    then show ?thesis by (intro keep[of i _ "[]"]) (auto simp: resume_def split: option.splits)
  next
    case (Pub_closed i subj msg)
    then show ?thesis by (intro keep[of i _ "[]"]) (auto simp: resume_def split: option.splits)
  next
    case (Pub_snap i subj msg)
    then show ?thesis by (intro keep[of i _ "[]"]) (auto simp: resume_def split: option.splits)
  next
    case (Pub_ret i msg)
    then show ?thesis by (intro keep[of i _ "[]"]) (auto simp: resume_def split: option.splits)
  next
    case (Enq_lock i s rest msg)
    then show ?thesis by (intro keep[of i _ "[]"]) (auto simp: resume_def split: option.splits)
  next
    case (Enq_send i s msg rest)
    then show ?thesis by (intro keep[of i _ "[]"]) (auto simp: resume_def split: option.splits)
  next
    case (Enq_spawn i s msg rest)
    then show ?thesis by (intro keep[of i _ "[Sender s msg]"]) auto
  next
    case (Snd_abort i s msg)
    then show ?thesis by (intro keep[of i _ "[]"]) (auto simp: resume_def split: option.splits)
  next
    case (Snd_send i s msg)
    then show ?thesis by (intro keep[of i _ "[]"]) (auto simp: resume_def split: option.splits)
  next
    case (Uns_done i s k)
    then show ?thesis by (intro keep[of i _ "[]"]) (auto simp: resume_def split: option.splits)
  next
    case (Uns_first i s k)
    then show ?thesis by (intro keep[of i _ "[]"]) (auto simp: resume_def split: option.splits)
  next
    case (Uns_close i s k)
    then show ?thesis by (intro keep[of i _ "[]"]) (auto simp: resume_def split: option.splits)
  next
    case (Cls_closed i ord)
    then show ?thesis by (intro keep[of i _ "[]"]) (auto simp: resume_def split: option.splits)
  next
    case (Cls_first i ord keys)
    then show ?thesis by (intro keep[of i _ "[]"]) (auto simp: resume_def split: option.splits)
  next
    case (Cls_end i)
    then show ?thesis by (intro keep[of i _ "[]"]) (auto simp: resume_def split: option.splits)
  next
    case (Cls_done i)
    then show ?thesis by (intro keep[of i _ "[]"]) (auto simp: resume_def split: option.splits)
  next
    case (Cls_ctx i)
    then show ?thesis by (intro keep[of i _ "[]"]) (auto simp: resume_def split: option.splits)
  next
    case (Fire i)
    then show ?thesis by (intro keep[of "length (procs \<sigma>)" Waiting "[]"]) (auto simp: list_update_beyond)
  qed
qed

lemma result_reachable:
  assumes "exec es NewSubPub = Ok \<sigma>"
  shows "result_inv \<sigma>"
proof -
  have "invs \<sigma> \<and> result_inv \<sigma>"
  proof (rule exec_invariant[where I = "\<lambda>\<sigma>. invs \<sigma> \<and> result_inv \<sigma>", OF assms])
    show "invs NewSubPub \<and> result_inv NewSubPub" using invs_init result_inv_init by simp
  next
    fix e and \<sigma> \<sigma>' :: "'a state"
    assume a: "invs \<sigma> \<and> result_inv \<sigma>" and s: "step e \<sigma> = Ok \<sigma>'"
    from a have "close_inv \<sigma>" by (simp add: invs_def)
    with a s show "invs \<sigma>' \<and> result_inv \<sigma>'"
      using invs_step result_inv_step by blast
  qed
  then show ?thesis by simp
qed


section \<open>Enqueue on a closed queue\<close>

lemma enqueue_select_closed:
  "shut (ch (heap \<sigma> ! s)) \<Longrightarrow> enqueue_select i s msg rest \<sigma> = Panic"
  by (simp add: enqueue_select_def chan_send_def)

lemma enqueue_go_closed:
  "shut (ch (heap \<sigma> ! s)) \<Longrightarrow>
   enqueue_go i s msg \<sigma> =
     Ok (\<sigma>\<lparr>heap := (heap \<sigma>)[s := (heap \<sigma> ! s)\<lparr>sendMu := False\<rparr>],
            procs := (procs \<sigma>)[i := Finished Ret_go]\<rparr>)"
  by (simp add: enqueue_go_def chan_send_def)

text \<open>
  Claim C2: an enqueue that loses the race against a concurrent Unsubscribe or Close must
  fail silently on both paths of enqueue, without delivering into the closed queue and
  without crashing the program.

  The goroutine started by the \<^verbatim>\<open>default\<close> branch does so (\<open>enqueue_go_closed\<close>: the
  panic of the send is recovered, the message is dropped, \<^verbatim>\<open>sendMu\<close> is released). The
  \<^verbatim>\<open>select\<close> itself does not (\<open>enqueue_select_closed\<close>): it sends in the goroutine of the
  publisher, where no \<^verbatim>\<open>recover\<close> is installed. In the schedule below a subscriber
  subscribes to \<^verbatim>\<open>topic\<close> (activities 0 and 1), a Publish on \<^verbatim>\<open>topic\<close> takes its snapshot
  (activity 2), Unsubscribe runs to its end (activity 3), and then the Publish calls
  enqueue on the subscription of its snapshot: the program panics.
\<close>

theorem enqueue_after_close_panics:
  "exec [Call (Call_Subscribe ''topic''), Sched 0,
         Call (Call_Publish ''topic'' (1::nat)), Sched 2,
         Call (Call_Unsubscribe 0), Sched 3, Sched 3,
         Sched 2, Sched 2] NewSubPub = Panic"
  by code_simp


section \<open>A closed bus rejects Subscribe and Publish\<close>

lemma returned_closed:
  assumes "invs \<sigma>" "c < length (procs \<sigma>)" "Close_returned (procs \<sigma> ! c)"
  shows "closed \<sigma>"
  using assms by (auto simp: invs_def close_inv_def)

text \<open>
  Claim C4: after any call of Close has returned, with \<^verbatim>\<open>nil\<close>, with \<^verbatim>\<open>ErrClosed\<close> or with
  the error of its context, every later call of Subscribe and of Publish fails with
  \<^verbatim>\<open>ErrClosed\<close> and changes nothing. Here \<open>\<sigma>\<close> is a reachable state in which activity
  \<open>c\<close> is a returned call of Close, \<open>es'\<close> is whatever happens afterwards (the later calls
  among it), and activity \<open>i\<close> is a call of Subscribe or Publish at its start: its step
  returns the error and only moves activity \<open>i\<close> itself, so the map, the heap of
  subscriptions, the counter and the list of activities (no worker, no sender) are as
  before.
\<close>

theorem closed_bus_rejects:
  assumes "exec es NewSubPub = Ok \<sigma>"
    and "c < length (procs \<sigma>)" and "Close_returned (procs \<sigma> ! c)"
    and "exec es' \<sigma> = Ok \<sigma>2" and "i < length (procs \<sigma>2)"
  shows "(procs \<sigma>2 ! i = Called (Call_Subscribe subj) \<longrightarrow>
            step (Sched i) \<sigma>2 =
              Ok (\<sigma>2\<lparr>procs := (procs \<sigma>2)[i := Finished (Ret_Subscribe (Inl ErrClosed))]\<rparr>)) \<and>
         (procs \<sigma>2 ! i = Called (Call_Publish subj msg) \<longrightarrow>
            step (Sched i) \<sigma>2 =
              Ok (\<sigma>2\<lparr>procs := (procs \<sigma>2)[i := Finished (Ret_Publish (Some ErrClosed))]\<rparr>))"
proof -
  from returned_closed[OF invs_reachable[OF assms(1)] assms(2,3)] have "closed \<sigma>" .
  from closed_exec[OF this assms(4)] have "closed \<sigma>2" by simp
  with assms(5) show ?thesis by (simp add: Subscribe_def Publish_def)
qed

theorem closed_bus_rejects_witness:
  "exec [Call (Call_Close []), Sched 0, Sched 0, Cancel 0, Ctx_done 0] NewSubPub = Ok cancelled_bus \<and>
   Close_returned (procs cancelled_bus ! 0) \<and>
   exec [Call (Call_Subscribe ''a''), Call (Call_Publish ''a'' 7)] cancelled_bus = Ok late_calls \<and>
   step (Sched 1) late_calls =
     Ok (late_calls\<lparr>procs := (procs late_calls)[1 := Finished (Ret_Subscribe (Inl ErrClosed))]\<rparr>) \<and>
   step (Sched 2) late_calls =
     Ok (late_calls\<lparr>procs := (procs late_calls)[2 := Finished (Ret_Publish (Some ErrClosed))]\<rparr>)"
proof -
  have c: "(0::nat) < length (procs cancelled_bus)" "Close_returned (procs cancelled_bus ! 0)"
    by (simp_all add: cancelled_bus_def)
  have l: "(1::nat) < length (procs late_calls)" "(2::nat) < length (procs late_calls)"
    by (simp_all add: late_calls_def)
  from closed_bus_rejects[OF cancelled_bus_reached c late_calls_reached l(1), of "''a''" 7]
       closed_bus_rejects[OF cancelled_bus_reached c late_calls_reached l(2), of "''a''" 7]
       cancelled_bus_reached late_calls_reached c
  show ?thesis by (simp add: late_calls_def)
qed


section \<open>Close, first and repeated\<close>

lemma filter_unique:
  assumes le: "length (filter P xs) \<le> 1" and i: "i < length xs" and j: "j < length xs"
    and fi: "P (xs ! i)" and fj: "P (xs ! j)"
  shows "i = j"
proof (rule ccontr)
  assume ne: "i \<noteq> j"
  have "length (filter P xs) = length (filter P (take i xs @ xs ! i # drop (Suc i) xs))"
    by (rule arg_cong[where f = "\<lambda>l. length (filter P l)"]) (rule id_take_nth_drop[OF i])
  also have "\<dots> = length (filter P (take i xs)) + (1 + length (filter P (drop (Suc i) xs)))"
    using fi by simp
  finally have "length (filter P xs) =
      length (filter P (take i xs)) + (1 + length (filter P (drop (Suc i) xs)))" .
  with le have z: "length (filter P (take i xs)) = 0" "length (filter P (drop (Suc i) xs)) = 0"
    by auto
  show False
  proof (cases "j < i")
    case True
    with i have "xs ! j \<in> set (take i xs)" by (auto simp: in_set_conv_nth intro!: exI[of _ j])
    with z(1) fj show False by (auto simp: filter_empty_conv)
  next
    case False
    with ne j have "xs ! j = drop (Suc i) xs ! (j - Suc i)" "j - Suc i < length (drop (Suc i) xs)"
      by auto
    then have "xs ! j \<in> set (drop (Suc i) xs)" by (simp only: nth_mem)
    with z(2) fj show False by (auto simp: filter_empty_conv)
  qed
qed

lemma unsub_at_Some: "unsub_at p = Some s \<longleftrightarrow> (\<exists>k. p = Unsubscribing s k)"
  by (cases p rule: unsub_at.cases) auto

lemma at_select:
  assumes inv: "invs \<sigma>" and i: "i < length (procs \<sigma>)" and w: "procs \<sigma> ! i = Waiting"
  shows "closed \<sigma> \<and> subs \<sigma> = [] \<and>
         (\<forall>s < length (heap \<sigma>). once (heap \<sigma> ! s) \<noteq> Once_new) \<and>
         (\<forall>s < length (heap \<sigma>). once (heap \<sigma> ! s) = Once_done \<or>
              Unsubscribing s None \<in> set (procs \<sigma>))"
proof -
  from inv have ci: "close_inv \<sigma>" and rg: "reg_inv \<sigma>" and un: "unsub_inv \<sigma>"
    by (simp_all add: invs_def)
  from i w have "0 < length (filter closer (procs \<sigma>))" by (intro filter_pos[of i]) auto
  with ci have cl: "closed \<sigma>" and one: "length (filter closer (procs \<sigma>)) \<le> 1"
    by (auto simp: close_inv_def split: if_splits)
  from cl rg have sb: "subs \<sigma> = []" by (simp add: reg_inv_def)
  have only: "p = Waiting" if "p \<in> set (procs \<sigma>)" "closer p" for p
  proof -
    from that(1) obtain j where j: "j < length (procs \<sigma>)" "procs \<sigma> ! j = p"
      by (auto simp: in_set_conv_nth)
    from filter_unique[OF one i j(1)] w j(2) that(2) have "i = j" by simp
    with w j(2) show ?thesis by simp
  qed
  have nopend: "pending p = {}" if "p \<in> set (procs \<sigma>)" for p
  proof (cases "closer p")
    case True
    with only[OF that] show ?thesis by simp
  next
    case False
    then show ?thesis by (cases p rule: pending.cases) auto
  qed
  have nn: "once (heap \<sigma> ! s) \<noteq> Once_new" if "s < length (heap \<sigma>)" for s
  proof
    assume "once (heap \<sigma> ! s) = Once_new"
    with ci cl that obtain p where "p \<in> set (procs \<sigma>)" "s \<in> pending p"
      by (auto simp: close_inv_def)
    with nopend show False by auto
  qed
  have dn: "once (heap \<sigma> ! s) = Once_done \<or> Unsubscribing s None \<in> set (procs \<sigma>)"
    if sl: "s < length (heap \<sigma>)" for s
  proof (cases "once (heap \<sigma> ! s)")
    case Once_new
    with nn[OF sl] show ?thesis by simp
  next
    case Once_done
    then show ?thesis by simp
  next
    case Once_running
    with un sl have "inside unsub_at s (procs \<sigma>) \<noteq> 0" by (simp add: unsub_inv_def)
    then obtain p where p: "p \<in> set (procs \<sigma>)" "unsub_at p = Some s"
      by (auto simp: inside_zero)
    then obtain k where k: "p = Unsubscribing s k" by (auto simp: unsub_at_Some)
    have "k = None"
    proof (cases k)
      case (Some rest)
      with k have "closer p" by simp
      from only[OF p(1) this] k show ?thesis by simp
    qed simp
    with k p(1) show ?thesis by simp
  qed
  from cl sb nn dn show ?thesis by blast
qed

lemma toClose_all:
  assumes inv: "invs \<sigma>" and o: "\<not> closed \<sigma>" and k: "set keys = fst ` set (subs \<sigma>)"
  shows "set (concat (map (subs_of (subs \<sigma>)) keys)) =
         {s. s < length (heap \<sigma>) \<and> once (heap \<sigma> ! s) = Once_new}"
proof -
  from inv have rg: "reg_inv \<sigma>" and wf: "wf \<sigma>" by (simp_all add: invs_def)
  have "(\<Union>k. set (subs_of (subs \<sigma>) k)) = {s. s < length (heap \<sigma>) \<and> once (heap \<sigma> ! s) = Once_new}"
  proof (intro set_eqI iffI)
    fix s assume "s \<in> (\<Union>k. set (subs_of (subs \<sigma>) k))"
    then obtain k where "s \<in> set (subs_of (subs \<sigma>) k)" by auto
    with rg wf show "s \<in> {s. s < length (heap \<sigma>) \<and> once (heap \<sigma> ! s) = Once_new}"
      by (auto simp: reg_inv_def wf_def)
  next
    fix s assume "s \<in> {s. s < length (heap \<sigma>) \<and> once (heap \<sigma> ! s) = Once_new}"
    with rg o have "s \<in> set (subs_of (subs \<sigma>) (subject (heap \<sigma> ! s)))"
      by (simp add: reg_inv_def)
    then show "s \<in> (\<Union>k. set (subs_of (subs \<sigma>) k))" by blast
  qed
  with set_toClose[OF k] show ?thesis by simp
qed

lemma no_worker_alive:
  assumes "invs \<sigma>"
  shows "wg \<sigma> = 0 \<longleftrightarrow> (\<forall>p \<in> set (procs \<sigma>). \<not> live p)"
  using assms by (auto simp: invs_def work_inv_def filter_empty_conv)

lemma Close_loop:
  assumes "i < length (procs \<sigma>)" and "procs \<sigma> ! i = Closing rest" and "subs \<sigma> = []"
    and "\<forall>s \<in> set rest. s < length (heap \<sigma>) \<and> once (heap \<sigma> ! s) \<noteq> Once_running \<and>
           (once (heap \<sigma> ! s) = Once_new \<longrightarrow> \<not> shut (ch (heap \<sigma> ! s)))"
  shows "\<exists>n \<sigma>'. exec (replicate n (Sched i)) \<sigma> = Ok \<sigma>' \<and>
           procs \<sigma>' = (procs \<sigma>)[i := Waiting] \<and> subs \<sigma>' = [] \<and> closed \<sigma>' = closed \<sigma> \<and>
           wg \<sigma>' = wg \<sigma> \<and> fired \<sigma>' = fired \<sigma> \<and> length (heap \<sigma>') = length (heap \<sigma>) \<and>
           (\<forall>t < length (heap \<sigma>). heap \<sigma>' ! t =
              (if t \<in> set rest \<and> once (heap \<sigma> ! t) = Once_new then torn_down (heap \<sigma> ! t)
               else heap \<sigma> ! t))"
  using assms
proof (induction rest arbitrary: \<sigma>)
  case Nil
  then have "exec (replicate 1 (Sched i)) \<sigma> = Ok (\<sigma>\<lparr>procs := (procs \<sigma>)[i := Waiting]\<rparr>)"
    by (simp add: Close_range_def)
  with Nil.prems(3) show ?case
    by (intro exI[of _ 1] exI[of _ "\<sigma>\<lparr>procs := (procs \<sigma>)[i := Waiting]\<rparr>"]) simp
next
  case (Cons s rest)
  from Cons.prems(4) have sl: "s < length (heap \<sigma>)" and nr: "once (heap \<sigma> ! s) \<noteq> Once_running"
    and op: "once (heap \<sigma> ! s) = Once_new \<Longrightarrow> \<not> shut (ch (heap \<sigma> ! s))"
    by simp_all
  define \<sigma>b where "\<sigma>b = (if once (heap \<sigma> ! s) = Once_new
      then \<sigma>\<lparr>heap := (heap \<sigma>)[s := torn_down (heap \<sigma> ! s)], procs := (procs \<sigma>)[i := Closing rest]\<rparr>
      else \<sigma>\<lparr>procs := (procs \<sigma>)[i := Closing rest]\<rparr>)"
  have "\<exists>m. exec (replicate m (Sched i)) \<sigma> = Ok \<sigma>b \<and> 0 < m"
  proof (cases "once (heap \<sigma> ! s)")
    case Once_new
    let ?a = "\<sigma>\<lparr>heap := (heap \<sigma>)[s := (heap \<sigma> ! s)\<lparr>once := Once_running\<rparr>],
                 procs := (procs \<sigma>)[i := Unsubscribing s (Some rest)]\<rparr>"
    have 1: "step (Sched i) \<sigma> = Ok ?a"
      using Cons.prems(1,2,3) Once_new by (simp add: Close_range_def unsubscribe_def Let_def)
    have 2: "step (Sched i) ?a = Ok \<sigma>b"
      using Cons.prems(1) Once_new op sl
      by (simp add: unsubscribe_close_def chan_close_def resume_def \<sigma>b_def torn_down_def Let_def)
    have "exec (replicate 2 (Sched i)) \<sigma> = Ok \<sigma>b"
      using 1 2 by (simp add: numeral_2_eq_2)
    then show ?thesis by (intro exI[of _ 2]) simp
  next
    case Once_running
    with nr show ?thesis by simp
  next
    case Once_done
    have "exec (replicate 1 (Sched i)) \<sigma> = Ok \<sigma>b"
      using Cons.prems(1,2) Once_done
      by (simp add: Close_range_def unsubscribe_def resume_def \<sigma>b_def Let_def)
    then show ?thesis by (intro exI[of _ 1]) simp
  qed
  then obtain m where m: "exec (replicate m (Sched i)) \<sigma> = Ok \<sigma>b" by blast
  have b: "procs \<sigma>b = (procs \<sigma>)[i := Closing rest]" "subs \<sigma>b = []" "closed \<sigma>b = closed \<sigma>"
    "wg \<sigma>b = wg \<sigma>" "fired \<sigma>b = fired \<sigma>" "length (heap \<sigma>b) = length (heap \<sigma>)"
    using Cons.prems(3) by (simp_all add: \<sigma>b_def)
  have hb: "heap \<sigma>b ! t = (if t = s \<and> once (heap \<sigma> ! s) = Once_new then torn_down (heap \<sigma> ! s)
                            else heap \<sigma> ! t)" if "t < length (heap \<sigma>)" for t
    using that by (simp add: \<sigma>b_def nth_list_update)
  have ob: "once (heap \<sigma>b ! t) = (if t = s \<and> once (heap \<sigma> ! s) = Once_new then Once_done
                            else once (heap \<sigma> ! t))" if "t < length (heap \<sigma>)" for t
    using hb[OF that] by (simp add: torn_down_def)
  have pre: "\<forall>t \<in> set rest. t < length (heap \<sigma>b) \<and> once (heap \<sigma>b ! t) \<noteq> Once_running \<and>
           (once (heap \<sigma>b ! t) = Once_new \<longrightarrow> \<not> shut (ch (heap \<sigma>b ! t)))"
  proof
    fix t assume t: "t \<in> set rest"
    with Cons.prems(4) have tl: "t < length (heap \<sigma>)" and tr: "once (heap \<sigma> ! t) \<noteq> Once_running"
      and to: "once (heap \<sigma> ! t) = Once_new \<Longrightarrow> \<not> shut (ch (heap \<sigma> ! t))" by simp_all
    show "t < length (heap \<sigma>b) \<and> once (heap \<sigma>b ! t) \<noteq> Once_running \<and>
           (once (heap \<sigma>b ! t) = Once_new \<longrightarrow> \<not> shut (ch (heap \<sigma>b ! t)))"
      using tl tr to b(6) hb[OF tl] ob[OF tl] by (auto split: if_splits)
  qed
  have "i < length (procs \<sigma>b)" "procs \<sigma>b ! i = Closing rest"
    using Cons.prems(1) b(1) by simp_all
  from Cons.IH[OF this b(2) pre] obtain n \<sigma>' where
    r: "exec (replicate n (Sched i)) \<sigma>b = Ok \<sigma>'"
    and f: "procs \<sigma>' = (procs \<sigma>b)[i := Waiting]" "subs \<sigma>' = []" "closed \<sigma>' = closed \<sigma>b"
      "wg \<sigma>' = wg \<sigma>b" "fired \<sigma>' = fired \<sigma>b" "length (heap \<sigma>') = length (heap \<sigma>b)"
    and h: "\<And>t. t < length (heap \<sigma>b) \<Longrightarrow> heap \<sigma>' ! t =
              (if t \<in> set rest \<and> once (heap \<sigma>b ! t) = Once_new then torn_down (heap \<sigma>b ! t)
               else heap \<sigma>b ! t)"
    by blast
  have "exec (replicate (m + n) (Sched i)) \<sigma> = Ok \<sigma>'"
    using m r by (simp add: replicate_add exec_append)
  moreover have "heap \<sigma>' ! t =
              (if t \<in> set (s # rest) \<and> once (heap \<sigma> ! t) = Once_new then torn_down (heap \<sigma> ! t)
               else heap \<sigma> ! t)" if tl: "t < length (heap \<sigma>)" for t
    using h[of t] tl b(6) hb[OF tl] ob[OF tl] by (auto split: if_splits)
  ultimately show ?case using f b by (intro exI[of _ "m + n"] exI[of _ \<sigma>']) simp
qed

lemma closed_at_closer:
  assumes "invs \<sigma>" and "i < length (procs \<sigma>)" and "closer (procs \<sigma> ! i)"
  shows "closed \<sigma> \<and> subs \<sigma> = []"
proof -
  from assms(2,3) have "0 < length (filter closer (procs \<sigma>))" by (rule filter_pos)
  with assms(1) have "closed \<sigma>" by (auto simp: invs_def close_inv_def split: if_splits)
  with assms(1) show ?thesis by (simp add: invs_def reg_inv_def)
qed

lemma closing_sub_reached:
  "exec [Call (Call_Subscribe ''a''), Sched 0, Call (Call_Close []), Sched 2, Sched 2] NewSubPub
     = Ok closing_sub"
  by (simp add: model_defs closing_sub_def fresh_sub_def)

lemma drained_bus_reached:
  "exec [Call (Call_Subscribe ''a''), Sched 0, Call (Call_Close []), Sched 2, Sched 2, Sched 2,
         Sched 2, Sched 1] NewSubPub = Ok drained_bus"
  by (simp add: model_defs drained_bus_def fresh_sub_def)

lemma shut_bus_reached:
  "exec [Call (Call_Subscribe ''a''), Sched 0, Call (Call_Close []), Sched 2, Sched 2, Sched 2,
         Sched 2, Sched 1, Sched 2] NewSubPub = Ok shut_bus"
  by (simp add: model_defs shut_bus_def fresh_sub_def)

text \<open>
  Claim C5, as the code has it: Close is idempotent-once. Let activity \<open>i\<close> be in a
  reachable state.
  \<^item> A call of Close that finds the bus open marks it closed, clears the map and takes
    into \<^verbatim>\<open>toClose\<close> every remaining subscription, that is every subscription whose Once
    is unused; its loop, when it runs on without interruption, reaches the \<^verbatim>\<open>select\<close>
    having closed the queue of each of them and changed nothing else.
  \<^item> Step by step, in any interleaving: the loop of Close at its end goes on to the
    \<^verbatim>\<open>select\<close>; standing before a subscription it enters \<^verbatim>\<open>once.Do\<close> when the Once is
    unused, skips the subscription when the Once is done, and waits while a client's own
    call of Unsubscribe is inside \<^verbatim>\<open>Do\<close>; inside \<^verbatim>\<open>Do\<close> it closes the queue, which never
    panics, and returns to the loop.
  \<^item> When that call stands at its \<^verbatim>\<open>select\<close>, the bus is closed, the map is nil, no
    Once is unused any more, and every subscription has its queue closed or is inside a
    client's own call of Unsubscribe. The branch that returns \<^verbatim>\<open>nil\<close> can be taken exactly
    when no worker is alive, and the branch that returns the error of the context exactly
    when the context has fired: so Close returns \<^verbatim>\<open>nil\<close> when the workers have finished
    and the context has not fired, it returns the error without waiting when the context
    has fired and a worker is still alive, and it waits when neither has happened. When
    both have happened by the time the \<^verbatim>\<open>select\<close> is taken, either result can be returned.
  \<^item> A call of Close has returned \<^verbatim>\<open>nil\<close> only if no worker is alive, and the error of its
    context only if the context has fired.
  \<^item> A call of Close that finds the bus closed returns \<^verbatim>\<open>ErrClosed\<close> and only its own
    place changes: no teardown.
\<close>

theorem Close_once:
  assumes "exec es NewSubPub = Ok \<sigma>" and "i < length (procs \<sigma>)"
  shows
    "(procs \<sigma> ! i = Called (Call_Close ord) \<and> \<not> closed \<sigma> \<longrightarrow>
        (\<exists>toClose n. step (Sched i) \<sigma> =
             Ok (\<sigma>\<lparr>closed := True, subs := [], procs := (procs \<sigma>)[i := Closing toClose]\<rparr>) \<and>
           set toClose = {s. s < length (heap \<sigma>) \<and> once (heap \<sigma> ! s) = Once_new} \<and>
           exec (replicate n (Sched i)) \<sigma> =
             Ok (\<sigma>\<lparr>closed := True, subs := [], heap := teardown (heap \<sigma>),
                   procs := (procs \<sigma>)[i := Waiting]\<rparr>))) \<and>
     (procs \<sigma> ! i = Closing [] \<longrightarrow>
        step (Sched i) \<sigma> = Ok (\<sigma>\<lparr>procs := (procs \<sigma>)[i := Waiting]\<rparr>)) \<and>
     (procs \<sigma> ! i = Closing (s # rest) \<longrightarrow>
        step (Sched i) \<sigma> =
          (case once (heap \<sigma> ! s) of
             Once_new \<Rightarrow>
               Ok (\<sigma>\<lparr>heap := (heap \<sigma>)[s := (heap \<sigma> ! s)\<lparr>once := Once_running\<rparr>],
                      procs := (procs \<sigma>)[i := Unsubscribing s (Some rest)]\<rparr>)
           | Once_running \<Rightarrow> Blocked
           | Once_done \<Rightarrow> Ok (\<sigma>\<lparr>procs := (procs \<sigma>)[i := Closing rest]\<rparr>))) \<and>
     (procs \<sigma> ! i = Unsubscribing s (Some rest) \<longrightarrow>
        step (Sched i) \<sigma> =
          Ok (\<sigma>\<lparr>heap := (heap \<sigma>)[s := torn_down (heap \<sigma> ! s)],
                 procs := (procs \<sigma>)[i := Closing rest]\<rparr>)) \<and>
     (procs \<sigma> ! i = Waiting \<longrightarrow>
        closed \<sigma> \<and> subs \<sigma> = [] \<and>
        (\<forall>s < length (heap \<sigma>). once (heap \<sigma> ! s) \<noteq> Once_new) \<and>
        (\<forall>s < length (heap \<sigma>). once (heap \<sigma> ! s) = Once_done \<or>
             Unsubscribing s None \<in> set (procs \<sigma>)) \<and>
        step (Sched i) \<sigma> =
          (if \<forall>p \<in> set (procs \<sigma>). \<not> live p
           then Ok (\<sigma>\<lparr>procs := (procs \<sigma>)[i := Finished (Ret_Close None)]\<rparr>) else Blocked) \<and>
        step (Ctx_done i) \<sigma> =
          (if i \<in> set (fired \<sigma>)
           then Ok (\<sigma>\<lparr>procs := (procs \<sigma>)[i := Finished (Ret_Close (Some CtxErr))]\<rparr>)
           else Blocked)) \<and>
     (procs \<sigma> ! i = Finished (Ret_Close None) \<longrightarrow> (\<forall>p \<in> set (procs \<sigma>). \<not> live p)) \<and>
     (procs \<sigma> ! i = Finished (Ret_Close (Some CtxErr)) \<longrightarrow> i \<in> set (fired \<sigma>)) \<and>
     (procs \<sigma> ! i = Called (Call_Close ord) \<and> closed \<sigma> \<longrightarrow>
        step (Sched i) \<sigma> =
          Ok (\<sigma>\<lparr>procs := (procs \<sigma>)[i := Finished (Ret_Close (Some ErrClosed))]\<rparr>))"
proof -
  note inv = invs_reachable[OF assms(1)]
  note res = result_reachable[OF assms(1)]
  from inv have un: "unsub_inv \<sigma>" and wf: "wf \<sigma>" by (simp_all add: invs_def)
  have first: "\<exists>toClose n. step (Sched i) \<sigma> =
             Ok (\<sigma>\<lparr>closed := True, subs := [], procs := (procs \<sigma>)[i := Closing toClose]\<rparr>) \<and>
           set toClose = {s. s < length (heap \<sigma>) \<and> once (heap \<sigma> ! s) = Once_new} \<and>
           exec (replicate n (Sched i)) \<sigma> =
             Ok (\<sigma>\<lparr>closed := True, subs := [], heap := teardown (heap \<sigma>),
                   procs := (procs \<sigma>)[i := Waiting]\<rparr>)"
    if c: "procs \<sigma> ! i = Called (Call_Close ord)" and o: "\<not> closed \<sigma>"
  proof -
    let ?keys = "if distinct ord \<and> set ord = set (map fst (subs \<sigma>)) then ord else map fst (subs \<sigma>)"
    define tc where "tc = concat (map (subs_of (subs \<sigma>)) ?keys)"
    define \<sigma>1 where "\<sigma>1 = \<sigma>\<lparr>closed := True, subs := [], procs := (procs \<sigma>)[i := Closing tc]\<rparr>"
    have k: "set ?keys = fst ` set (subs \<sigma>)" by auto
    have s1: "step (Sched i) \<sigma> = Ok \<sigma>1"
      using c o assms(2) by (simp add: Close_def Let_def tc_def \<sigma>1_def)
    have all: "set tc = {s. s < length (heap \<sigma>) \<and> once (heap \<sigma> ! s) = Once_new}"
      unfolding tc_def by (rule toClose_all[OF inv o k])
    have f1: "heap \<sigma>1 = heap \<sigma>" "closed \<sigma>1" "subs \<sigma>1 = []" "wg \<sigma>1 = wg \<sigma>" "fired \<sigma>1 = fired \<sigma>"
      "procs \<sigma>1 = (procs \<sigma>)[i := Closing tc]" "state.more \<sigma>1 = state.more \<sigma>"
      by (simp_all add: \<sigma>1_def)
    have pre: "\<forall>s \<in> set tc. s < length (heap \<sigma>1) \<and> once (heap \<sigma>1 ! s) \<noteq> Once_running \<and>
           (once (heap \<sigma>1 ! s) = Once_new \<longrightarrow> \<not> shut (ch (heap \<sigma>1 ! s)))"
    proof
      fix t assume "t \<in> set tc"
      with all have "t < length (heap \<sigma>)" "once (heap \<sigma> ! t) = Once_new" by auto
      with un show "t < length (heap \<sigma>1) \<and> once (heap \<sigma>1 ! t) \<noteq> Once_running \<and>
           (once (heap \<sigma>1 ! t) = Once_new \<longrightarrow> \<not> shut (ch (heap \<sigma>1 ! t)))"
        by (simp add: unsub_inv_def f1)
    qed
    have "i < length (procs \<sigma>1)" "procs \<sigma>1 ! i = Closing tc" "subs \<sigma>1 = []"
      using assms(2) by (simp_all add: f1)
    from Close_loop[OF this pre] obtain n \<sigma>' where
      r: "exec (replicate n (Sched i)) \<sigma>1 = Ok \<sigma>'"
      and f: "procs \<sigma>' = (procs \<sigma>1)[i := Waiting]" "subs \<sigma>' = []" "closed \<sigma>' = closed \<sigma>1"
        "wg \<sigma>' = wg \<sigma>1" "fired \<sigma>' = fired \<sigma>1" "length (heap \<sigma>') = length (heap \<sigma>1)"
      and h: "\<And>t. t < length (heap \<sigma>1) \<Longrightarrow> heap \<sigma>' ! t =
              (if t \<in> set tc \<and> once (heap \<sigma>1 ! t) = Once_new then torn_down (heap \<sigma>1 ! t)
               else heap \<sigma>1 ! t)"
      by blast
    have hp: "heap \<sigma>' = teardown (heap \<sigma>)"
    proof (rule nth_equalityI)
      show "length (heap \<sigma>') = length (teardown (heap \<sigma>))" using f(6) f1(1) by (simp add: teardown_def)
    next
      fix t assume "t < length (heap \<sigma>')"
      with f(6) f1(1) have tl: "t < length (heap \<sigma>)" by simp
      have "t \<in> set tc \<longleftrightarrow> once (heap \<sigma> ! t) = Once_new" using all tl by simp
      with h[of t] tl f1(1) show "heap \<sigma>' ! t = teardown (heap \<sigma>) ! t"
        by (simp add: teardown_def)
    qed
    have "\<sigma>' = \<sigma>\<lparr>closed := True, subs := [], heap := teardown (heap \<sigma>),
                  procs := (procs \<sigma>)[i := Waiting]\<rparr>"
      using f hp f1 by (intro state.equality) simp_all
    with r s1 have "exec (replicate (Suc n) (Sched i)) \<sigma> =
        Ok (\<sigma>\<lparr>closed := True, subs := [], heap := teardown (heap \<sigma>),
               procs := (procs \<sigma>)[i := Waiting]\<rparr>)"
      by simp
    with s1 all show ?thesis unfolding \<sigma>1_def by blast
  qed
  have last: "step (Sched i) \<sigma> = Ok (\<sigma>\<lparr>procs := (procs \<sigma>)[i := Waiting]\<rparr>)"
    if "procs \<sigma> ! i = Closing []"
    using that assms(2) by (simp add: Close_range_def)
  have loop: "step (Sched i) \<sigma> =
          (case once (heap \<sigma> ! s) of
             Once_new \<Rightarrow>
               Ok (\<sigma>\<lparr>heap := (heap \<sigma>)[s := (heap \<sigma> ! s)\<lparr>once := Once_running\<rparr>],
                      procs := (procs \<sigma>)[i := Unsubscribing s (Some rest)]\<rparr>)
           | Once_running \<Rightarrow> Blocked
           | Once_done \<Rightarrow> Ok (\<sigma>\<lparr>procs := (procs \<sigma>)[i := Closing rest]\<rparr>))"
    if c: "procs \<sigma> ! i = Closing (s # rest)"
  proof -
    from closed_at_closer[OF inv assms(2)] c have sb: "subs \<sigma> = []" by simp
    have "\<sigma>\<lparr>heap := (heap \<sigma>)[s := (heap \<sigma> ! s)\<lparr>once := Once_running\<rparr>], subs := [],
            procs := (procs \<sigma>)[i := Unsubscribing s (Some rest)]\<rparr> =
          \<sigma>\<lparr>heap := (heap \<sigma>)[s := (heap \<sigma> ! s)\<lparr>once := Once_running\<rparr>],
            procs := (procs \<sigma>)[i := Unsubscribing s (Some rest)]\<rparr>"
      using sb by (intro state.equality) simp_all
    with c assms(2) sb show ?thesis
      by (simp add: Close_range_def unsubscribe_def resume_def Let_def split: once_state.splits)
  qed
  have shut: "step (Sched i) \<sigma> =
          Ok (\<sigma>\<lparr>heap := (heap \<sigma>)[s := torn_down (heap \<sigma> ! s)],
                 procs := (procs \<sigma>)[i := Closing rest]\<rparr>)"
    if c: "procs \<sigma> ! i = Unsubscribing s (Some rest)"
    using c assms(2) unsubscribing_open[OF un wf assms(2) c]
    by (simp add: unsubscribe_close_def chan_close_def resume_def torn_down_def Let_def)
  have sel: "step (Sched i) \<sigma> =
          (if \<forall>p \<in> set (procs \<sigma>). \<not> live p
           then Ok (\<sigma>\<lparr>procs := (procs \<sigma>)[i := Finished (Ret_Close None)]\<rparr>) else Blocked)"
    "step (Ctx_done i) \<sigma> =
          (if i \<in> set (fired \<sigma>)
           then Ok (\<sigma>\<lparr>procs := (procs \<sigma>)[i := Finished (Ret_Close (Some CtxErr))]\<rparr>)
           else Blocked)"
    if w: "procs \<sigma> ! i = Waiting"
    using w assms(2) no_worker_alive[OF inv] by (simp_all add: Close_done_def Close_ctx_def)
  have nil: "\<forall>p \<in> set (procs \<sigma>). \<not> live p" if "procs \<sigma> ! i = Finished (Ret_Close None)"
  proof -
    from that assms(2) have "Finished (Ret_Close None) \<in> set (procs \<sigma>)" by (metis nth_mem)
    with res have "wg \<sigma> = 0" by (simp add: result_inv_def)
    with no_worker_alive[OF inv] show ?thesis by simp
  qed
  have err: "i \<in> set (fired \<sigma>)" if "procs \<sigma> ! i = Finished (Ret_Close (Some CtxErr))"
    using that assms(2) res by (simp add: result_inv_def)
  have again: "step (Sched i) \<sigma> =
          Ok (\<sigma>\<lparr>procs := (procs \<sigma>)[i := Finished (Ret_Close (Some ErrClosed))]\<rparr>)"
    if "procs \<sigma> ! i = Called (Call_Close ord)" "closed \<sigma>"
    using that assms(2) by (simp add: Close_def)
  show ?thesis
    apply (intro conjI impI)
               apply (erule conjE, erule (1) first)
              apply (erule last)
             apply (erule loop)
            apply (erule shut)
           apply (rule at_select[OF inv assms(2), THEN conjunct1], assumption)
          apply (rule at_select[OF inv assms(2), THEN conjunct2, THEN conjunct1], assumption)
         apply (rule at_select[OF inv assms(2), THEN conjunct2, THEN conjunct2, THEN conjunct1], assumption)
        apply (rule at_select[OF inv assms(2), THEN conjunct2, THEN conjunct2, THEN conjunct2], assumption)
       apply (erule sel(1))
      apply (erule sel(2))
     apply (erule nil)
    apply (erule err)
    apply (erule conjE, erule (1) again)
    done
qed

theorem Close_once_witness:
  "exec [Call (Call_Subscribe ''a''), Sched 0, Call (Call_Close [])] NewSubPub = Ok closing_call \<and>
   procs closing_call ! 2 = Called (Call_Close []) \<and> \<not> closed closing_call \<and>
   step (Sched 2) closing_call =
     Ok (closing_call\<lparr>closed := True, subs := [], procs := (procs closing_call)[2 := Closing [0]]\<rparr>) \<and>
   exec (replicate 4 (Sched 2)) closing_call =
     Ok (closing_call\<lparr>closed := True, subs := [], heap := teardown (heap closing_call),
           procs := (procs closing_call)[2 := Waiting]\<rparr>) \<and>
   procs closed_bus ! 2 = Closing [0] \<and> once (heap closed_bus ! 0) = Once_new \<and>
   step (Sched 2) closed_bus =
     Ok (closed_bus\<lparr>heap := (heap closed_bus)[0 := (heap closed_bus ! 0)\<lparr>once := Once_running\<rparr>],
           procs := (procs closed_bus)[2 := Unsubscribing 0 (Some [])]\<rparr>) \<and>
   procs closing_sub ! 2 = Unsubscribing 0 (Some []) \<and>
   step (Sched 2) closing_sub =
     Ok (closing_sub\<lparr>heap := (heap closing_sub)[0 := torn_down (heap closing_sub ! 0)],
           procs := (procs closing_sub)[2 := Closing []]\<rparr>) \<and>
   procs waiting_bus ! 2 = Waiting \<and> closed waiting_bus \<and> subs waiting_bus = [] \<and>
   once (heap waiting_bus ! 0) = Once_done \<and>
   step (Sched 2) waiting_bus = Blocked \<and> step (Ctx_done 2) waiting_bus = Blocked \<and>
   procs drained_bus ! 2 = Waiting \<and>
   step (Sched 2) drained_bus =
     Ok (drained_bus\<lparr>procs := (procs drained_bus)[2 := Finished (Ret_Close None)]\<rparr>) \<and>
   procs shut_bus ! 2 = Finished (Ret_Close None) \<and> filter live (procs shut_bus) = [] \<and>
   procs cancelled_bus ! 0 = Finished (Ret_Close (Some CtxErr)) \<and> 0 \<in> set (fired cancelled_bus) \<and>
   procs waiting_bus ! 3 = Called (Call_Close []) \<and>
   step (Sched 3) waiting_bus =
     Ok (waiting_bus\<lparr>procs := (procs waiting_bus)[3 := Finished (Ret_Close (Some ErrClosed))]\<rparr>)"
proof -
  have l: "(2::nat) < length (procs closing_call)" "(2::nat) < length (procs closing_sub)"
    "(2::nat) < length (procs waiting_bus)" "(3::nat) < length (procs waiting_bus)"
    "(2::nat) < length (procs drained_bus)" "(2::nat) < length (procs shut_bus)"
    "(0::nat) < length (procs cancelled_bus)" "(2::nat) < length (procs closed_bus)"
    by (simp_all add: closing_call_def closing_sub_def waiting_bus_def drained_bus_def
        shut_bus_def cancelled_bus_def closed_bus_def)
  have c: "exec [Call (Call_Subscribe ''a''), Sched 0, Call (Call_Close []), Sched 2] NewSubPub
     = Ok closed_bus"
    by (simp add: model_defs closed_bus_def)
  have s: "step (Sched 2) closing_call =
     Ok (closing_call\<lparr>closed := True, subs := [], procs := (procs closing_call)[2 := Closing [0]]\<rparr>)"
    by (simp add: closing_call_def Close_def subs_of_def)
  have r: "exec (replicate 4 (Sched 2)) closing_call =
     Ok (closing_call\<lparr>closed := True, subs := [], heap := teardown (heap closing_call),
           procs := (procs closing_call)[2 := Waiting]\<rparr>)"
    by (simp add: model_defs closing_call_def fresh_sub_def teardown_def torn_down_def
        numeral_eq_Suc)
  note t = Close_once[of _ _ _ "[]" 0 "[]"]
  from t[OF closing_call_reached l(1), THEN conjunct1]
       t[OF c l(8), THEN conjunct2, THEN conjunct2, THEN conjunct1]
       t[OF closing_sub_reached l(2), THEN conjunct2, THEN conjunct2, THEN conjunct2, THEN conjunct1]
       t[OF waiting_bus_reached l(3), THEN conjunct2, THEN conjunct2, THEN conjunct2, THEN conjunct2,
         THEN conjunct1]
       t[OF drained_bus_reached l(5), THEN conjunct2, THEN conjunct2, THEN conjunct2, THEN conjunct2,
         THEN conjunct1]
       t[OF shut_bus_reached l(6), THEN conjunct2, THEN conjunct2, THEN conjunct2, THEN conjunct2,
         THEN conjunct2, THEN conjunct1]
       t[OF cancelled_bus_reached l(7), THEN conjunct2, THEN conjunct2, THEN conjunct2, THEN conjunct2,
         THEN conjunct2, THEN conjunct2, THEN conjunct1]
       t[OF waiting_bus_reached l(4), THEN conjunct2, THEN conjunct2, THEN conjunct2, THEN conjunct2,
         THEN conjunct2, THEN conjunct2, THEN conjunct2]
       closing_call_reached s r
  show ?thesis
    by (simp add: closing_call_def closing_sub_def waiting_bus_def drained_bus_def shut_bus_def
        cancelled_bus_def closed_bus_def fresh_sub_def live_def filter_empty_conv)
qed

text \<open>
  Claim C5 as it is worded fails: the worker of the only subscription has finished while
  Close stands at its \<^verbatim>\<open>select\<close> and the context has not fired; the context fires
  afterwards, and Close returns the error of the context. In the other direction, the
  context fires while the worker is alive, the worker finishes, and Close returns \<^verbatim>\<open>nil\<close>.
\<close>

theorem Close_late_context:
  "exec [Call (Call_Subscribe ''a''), Sched 0, Call (Call_Close []), Sched 2, Sched 2, Sched 2,
         Sched 2, Sched 1] NewSubPub = Ok drained_bus \<and>
   procs drained_bus ! 2 = Waiting \<and> filter live (procs drained_bus) = [] \<and>
   wg drained_bus = 0 \<and> fired drained_bus = [] \<and>
   exec [Cancel 2, Ctx_done 2] drained_bus =
     Ok (drained_bus\<lparr>fired := [2],
           procs := (procs drained_bus)[2 := Finished (Ret_Close (Some CtxErr))]\<rparr>) \<and>
   exec [Call (Call_Subscribe ''a''), Sched 0, Call (Call_Close []), Sched 2, Sched 2, Sched 2,
         Sched 2, Cancel 2, Sched 1, Sched 2] NewSubPub = Ok (shut_bus\<lparr>fired := [2]\<rparr>) \<and>
   procs (shut_bus\<lparr>fired := [2]\<rparr>) ! 2 = Finished (Ret_Close None)"
  by (simp add: model_defs drained_bus_def shut_bus_def fresh_sub_def live_def)


section \<open>The closed flag is permanent\<close>

lemma closed_bus_reached:
  "exec [Call (Call_Subscribe ''a''), Sched 0, Call (Call_Close []), Sched 2] NewSubPub
     = Ok closed_bus"
  by (simp add: NewSubPub_def closed_bus_def Subscribe_def Close_def subs_of_def make_chan_def)

lemma closed_bus_later_reached:
  "exec [Call (Call_Subscribe ''b''), Sched 3, Sched 2, Sched 2] closed_bus = Ok closed_bus_later"
  by (simp add: closed_bus_def closed_bus_later_def Subscribe_def Close_range_def
      unsubscribe_def unsubscribe_close_def chan_close_def remove_sub_def resume_def)

text \<open>
  Claim C6: over every sequence of Subscribe, Publish, Unsubscribe and Close operations,
  once the flag \<open>closed\<close> is true it never becomes false again, and from then on the map
  from subjects to subscriptions gains no entry: no new subject, and no new subscription
  under any subject. The statement holds from any state with the flag set, whatever the
  schedule \<open>es\<close> that follows.
\<close>

theorem closed_is_permanent:
  assumes "closed \<sigma>" and "exec es \<sigma> = Ok \<sigma>'"
  shows "closed \<sigma>' \<and>
         (\<forall>k. set (subs_of (subs \<sigma>') k) \<subseteq> set (subs_of (subs \<sigma>) k)) \<and>
         fst ` set (subs \<sigma>') \<subseteq> fst ` set (subs \<sigma>)"
  using assms by (rule closed_exec)

theorem closed_is_permanent_witness:
  "closed closed_bus \<and>
   exec [Call (Call_Subscribe ''b''), Sched 3, Sched 2, Sched 2] closed_bus = Ok closed_bus_later \<and>
   closed closed_bus_later \<and> subs closed_bus_later = []"
proof -
  have c: "closed closed_bus" by (simp add: closed_bus_def)
  from closed_is_permanent[OF c closed_bus_later_reached] c closed_bus_later_reached
  show ?thesis by (simp add: closed_bus_later_def)
qed


section \<open>Unsubscribe, first and repeated\<close>

lemma swap_remove_single [simp]: "swap_remove s [s] = []"
  by (simp add: swap_remove_def)

lemma entry_deleted_iff:
  assumes rg: "reg_inv \<sigma>"
  shows "map_of (remove_sub s subj (subs \<sigma>)) subj = None \<longleftrightarrow> set (subs_of (subs \<sigma>) subj) \<subseteq> {s}"
proof (cases "map_of (subs \<sigma>) subj")
  case None
  then show ?thesis by (simp add: map_of_remove_sub subs_of_def)
next
  case (Some L)
  from rg have "map_of (subs \<sigma>) subj \<noteq> Some []" "distinct (subs_of (subs \<sigma>) subj)"
    by (simp_all add: reg_inv_def)
  with Some have L: "L \<noteq> []" "distinct L" "subs_of (subs \<sigma>) subj = L"
    by (auto simp: subs_of_def)
  have "swap_remove s L = [] \<longleftrightarrow> set L \<subseteq> {s}"
  proof
    assume "swap_remove s L = []"
    from swap_remove_empty[OF this] show "set L \<subseteq> {s}" by auto
  next
    assume sub: "set L \<subseteq> {s}"
    from L(1) obtain a L' where c: "L = a # L'" by (cases L) auto
    with sub have a: "a = s" and r: "set L' \<subseteq> {s}" by auto
    from L(2) c a have "s \<notin> set L'" by simp
    with r have "L' = []" by (cases L') auto
    with c a have "L = [s]" by simp
    then show "swap_remove s L = []" by simp
  qed
  with Some L(3) show ?thesis by (simp add: map_of_remove_sub)
qed

lemma removed_everywhere:
  assumes rg: "reg_inv \<sigma>"
  shows "s \<notin> set (subs_of (remove_sub s (subject (heap \<sigma> ! s)) (subs \<sigma>)) subj)"
  using rg by (auto simp: reg_inv_def set_swap_remove)

text \<open>
  Claim C8: Unsubscribe is idempotent and returns no error. Let activity \<open>i\<close> be a call of
  Unsubscribe on handle \<open>s\<close> in a reachable state.
  \<^item> First call (the Once is unused): its first step removes \<open>s\<close> from the slice of its
    subject, so that \<open>s\<close> is in no slice of the map any more, and deletes the entry of the
    subject exactly if no other subscription is left in it; its second step closes the
    queue and returns, and never panics.
  \<^item> Repeated call (the Once is done, by an earlier Unsubscribe or by Close): the call
    returns at once and nothing but the place of activity \<open>i\<close> changes.
  \<^item> A call made while another activity is still inside \<^verbatim>\<open>once.Do\<close> waits.
\<close>

theorem Unsubscribe_idempotent:
  assumes "exec es NewSubPub = Ok \<sigma>" and "i < length (procs \<sigma>)"
  shows
    "(procs \<sigma> ! i = Called (Call_Unsubscribe s) \<and> once (heap \<sigma> ! s) = Once_new \<longrightarrow>
        step (Sched i) \<sigma> =
          Ok (\<sigma>\<lparr>heap := (heap \<sigma>)[s := (heap \<sigma> ! s)\<lparr>once := Once_running\<rparr>],
                 subs := remove_sub s (subject (heap \<sigma> ! s)) (subs \<sigma>),
                 procs := (procs \<sigma>)[i := Unsubscribing s None]\<rparr>) \<and>
        (\<forall>subj. s \<notin> set (subs_of (remove_sub s (subject (heap \<sigma> ! s)) (subs \<sigma>)) subj)) \<and>
        (map_of (remove_sub s (subject (heap \<sigma> ! s)) (subs \<sigma>)) (subject (heap \<sigma> ! s)) = None
           \<longleftrightarrow> set (subs_of (subs \<sigma>) (subject (heap \<sigma> ! s))) \<subseteq> {s})) \<and>
     (procs \<sigma> ! i = Unsubscribing s None \<longrightarrow>
        step (Sched i) \<sigma> =
          Ok (\<sigma>\<lparr>heap := (heap \<sigma>)[s := (heap \<sigma> ! s)\<lparr>ch := (ch (heap \<sigma> ! s))\<lparr>shut := True\<rparr>,
                                                 once := Once_done\<rparr>],
                 procs := (procs \<sigma>)[i := Finished (Ret_Unsubscribe s)]\<rparr>)) \<and>
     (procs \<sigma> ! i = Called (Call_Unsubscribe s) \<and> once (heap \<sigma> ! s) = Once_running \<longrightarrow>
        step (Sched i) \<sigma> = Blocked) \<and>
     (procs \<sigma> ! i = Called (Call_Unsubscribe s) \<and> once (heap \<sigma> ! s) = Once_done \<longrightarrow>
        step (Sched i) \<sigma> = Ok (\<sigma>\<lparr>procs := (procs \<sigma>)[i := Finished (Ret_Unsubscribe s)]\<rparr>))"
proof -
  from basic_reachable[OF assms(1)] have wf: "wf \<sigma>" and un: "unsub_inv \<sigma>" and rg: "reg_inv \<sigma>"
    by simp_all
  have first: "step (Sched i) \<sigma> =
          Ok (\<sigma>\<lparr>heap := (heap \<sigma>)[s := (heap \<sigma> ! s)\<lparr>once := Once_running\<rparr>],
                 subs := remove_sub s (subject (heap \<sigma> ! s)) (subs \<sigma>),
                 procs := (procs \<sigma>)[i := Unsubscribing s None]\<rparr>)"
    if "procs \<sigma> ! i = Called (Call_Unsubscribe s)" "once (heap \<sigma> ! s) = Once_new"
    using that assms(2) by (simp add: unsubscribe_def Let_def)
  have second: "step (Sched i) \<sigma> =
          Ok (\<sigma>\<lparr>heap := (heap \<sigma>)[s := (heap \<sigma> ! s)\<lparr>ch := (ch (heap \<sigma> ! s))\<lparr>shut := True\<rparr>,
                                                 once := Once_done\<rparr>],
                 procs := (procs \<sigma>)[i := Finished (Ret_Unsubscribe s)]\<rparr>)"
    if "procs \<sigma> ! i = Unsubscribing s None"
    using that assms(2) unsubscribing_open[OF un wf assms(2) that]
    by (simp add: unsubscribe_close_def chan_close_def resume_def Let_def)
  have waits: "step (Sched i) \<sigma> = Blocked"
    if "procs \<sigma> ! i = Called (Call_Unsubscribe s)" "once (heap \<sigma> ! s) = Once_running"
    using that assms(2) by (simp add: unsubscribe_def Let_def)
  have again: "step (Sched i) \<sigma> = Ok (\<sigma>\<lparr>procs := (procs \<sigma>)[i := Finished (Ret_Unsubscribe s)]\<rparr>)"
    if "procs \<sigma> ! i = Called (Call_Unsubscribe s)" "once (heap \<sigma> ! s) = Once_done"
    using that assms(2) by (simp add: unsubscribe_def resume_def Let_def)
  have gone: "\<forall>subj. s \<notin> set (subs_of (remove_sub s (subject (heap \<sigma> ! s)) (subs \<sigma>)) subj)"
    using removed_everywhere[OF rg] by simp
  note del = entry_deleted_iff[OF rg, of s "subject (heap \<sigma> ! s)"]
  show ?thesis
    apply (intro conjI impI)
         apply (erule conjE, erule (1) first)
        apply (rule gone)
       apply (rule del)
      apply (erule second)
     apply (erule conjE, erule (1) waits)
    apply (erule conjE, erule (1) again)
    done
qed

theorem Unsubscribe_idempotent_witness:
  "exec [Call (Call_Subscribe ''a''), Sched 0, Call (Call_Subscribe ''a''), Sched 2,
         Call (Call_Unsubscribe 0)] NewSubPub = Ok two_subs \<and>
   procs two_subs ! 4 = Called (Call_Unsubscribe 0) \<and> once (heap two_subs ! 0) = Once_new \<and>
   step (Sched 4) two_subs = Ok two_subs_removed \<and>
   0 \<notin> set (subs_of (subs two_subs_removed) ''a'') \<and>
   procs two_subs_removed ! 4 = Unsubscribing 0 None \<and>
   step (Sched 4) two_subs_removed =
     Ok (two_subs_done\<lparr>procs := butlast (procs two_subs_done)\<rparr>) \<and>
   procs two_subs_done ! 5 = Called (Call_Unsubscribe 0) \<and> once (heap two_subs_done ! 0) = Once_done \<and>
   step (Sched 5) two_subs_done =
     Ok (two_subs_done\<lparr>procs := (procs two_subs_done)[5 := Finished (Ret_Unsubscribe 0)]\<rparr>)"
proof -
  have l: "(4::nat) < length (procs two_subs)" "(4::nat) < length (procs two_subs_removed)"
    "(5::nat) < length (procs two_subs_done)"
    by (simp_all add: two_subs_def two_subs_removed_def two_subs_done_def)
  from Unsubscribe_idempotent[OF two_subs_reached l(1), of 0]
       Unsubscribe_idempotent[OF two_subs_removed_reached l(2), of 0]
       Unsubscribe_idempotent[OF two_subs_done_reached l(3), of 0]
       two_subs_reached
  show ?thesis
    by (simp add: two_subs_def two_subs_removed_def two_subs_done_def fresh_sub_def
        remove_sub_def swap_remove_def subs_of_def)
qed


section \<open>Unsubscribe leaves the other subscriptions alone\<close>

text \<open>
  Claim C10: Unsubscribe on one handle affects only that subscription. Whichever of its
  two steps runs (the removal from the map, or \<^verbatim>\<open>close(s.ch)\<close>), called by a client or by
  Close: the flag \<open>closed\<close> and the counter \<open>wg\<close> are unchanged; every other subscription
  \<open>t\<close> keeps its whole record (its queue with its open or closed state, the calls of its
  handler, its Once, its \<^verbatim>\<open>sendMu\<close>); every other activity stays where it is; every
  other subscription is in the slice of a subject after the step exactly if it was before;
  and an entry of the map disappears only if it is the entry of the subject of \<open>s\<close> and
  \<open>s\<close> was its only member.
\<close>

theorem unsubscribe_frame:
  assumes "exec es NewSubPub = Ok \<sigma>"
    and "entering (procs \<sigma> ! i) = Some (s, k) \<or> procs \<sigma> ! i = Unsubscribing s k"
    and "step (Sched i) \<sigma> = Ok \<sigma>'"
  shows "closed \<sigma>' = closed \<sigma> \<and> wg \<sigma>' = wg \<sigma> \<and>
     length (heap \<sigma>') = length (heap \<sigma>) \<and> length (procs \<sigma>') = length (procs \<sigma>) \<and>
     (\<forall>t. t \<noteq> s \<longrightarrow> heap \<sigma>' ! t = heap \<sigma> ! t) \<and>
     (\<forall>j. j \<noteq> i \<longrightarrow> procs \<sigma>' ! j = procs \<sigma> ! j) \<and>
     (\<forall>subj t. t \<noteq> s \<longrightarrow>
        (t \<in> set (subs_of (subs \<sigma>') subj) \<longleftrightarrow> t \<in> set (subs_of (subs \<sigma>) subj))) \<and>
     (\<forall>subj. map_of (subs \<sigma>) subj \<noteq> None \<and> map_of (subs \<sigma>') subj = None \<longrightarrow>
        subj = subject (heap \<sigma> ! s) \<and> subs_of (subs \<sigma>) subj = [s])"
proof -
  from basic_reachable[OF assms(1)] have "wf \<sigma>" "unsub_inv \<sigma>" "reg_inv \<sigma>" by simp_all
  then show ?thesis using assms(2,3) by (rule unsubscribe_frame_step)
qed

theorem unsubscribe_frame_witness:
  "exec [Call (Call_Subscribe ''a''), Sched 0, Call (Call_Subscribe ''a''), Sched 2,
         Call (Call_Unsubscribe 0)] NewSubPub = Ok two_subs \<and>
   entering (procs two_subs ! 4) = Some (0, None) \<and>
   step (Sched 4) two_subs = Ok two_subs_removed \<and>
   closed two_subs_removed = closed two_subs \<and>
   heap two_subs_removed ! 1 = heap two_subs ! 1 \<and>
   1 \<in> set (subs_of (subs two_subs_removed) ''a'') \<and>
   procs two_subs_removed ! 3 = Worker 1"
proof -
  have e: "entering (procs two_subs ! 4) = Some (0, None) \<or> procs two_subs ! 4 = Unsubscribing 0 None"
    by (simp add: two_subs_def)
  from unsubscribe_frame[OF two_subs_reached e two_subs_step] two_subs_reached two_subs_step
  show ?thesis by (simp add: two_subs_def two_subs_removed_def subs_of_def)
qed


section \<open>A handler that never returns\<close>

text \<open>
  Claim C9 says that a handler that blocks for ever on one subscription delays neither the
  delivery to another subscription nor the return of a call of Publish. The code does not
  behave so. In the state that \<open>slow_schedule\<close> reaches, the handler of the first
  subscriber is running on message 0, its queue holds 64 messages, and the call of Publish
  for message 65 has returned, leaving a detached sender that holds \<^verbatim>\<open>sendMu\<close> while it
  waits for room in the queue. The call of Publish for message 66 (activity 71) then
  waits at \<^verbatim>\<open>s.sendMu.Lock()\<close> in the enqueue of the first subscriber: its step is
  blocked, and so is the step of every other activity but the handler. So the call does
  not return, and the second subscriber, whose worker is idle with an empty queue and
  who has handled every message up to 65, does not get message 66, for as long as the
  handler of the first subscriber does not return. Once that handler returns, the sender
  gets its message into the queue, the call of Publish returns and the second subscriber
  handles message 66.
\<close>

theorem slow_handler_blocks_Publish:
  "case exec slow_schedule NewSubPub of
     Ok \<sigma> \<Rightarrow>
       procs \<sigma> ! 1 = Handling 0 0 \<and>
       length (buf (ch (heap \<sigma> ! 0))) = cap (ch (heap \<sigma> ! 0)) \<and>
       procs \<sigma> ! 69 = Finished (Ret_Publish None) \<and> procs \<sigma> ! 70 = Sender 0 65 \<and>
       sendMu (heap \<sigma> ! 0) \<and>
       procs \<sigma> ! 71 = Publishing [0, 1] 66 \<and> step (Sched 71) \<sigma> = Blocked \<and>
       filter (\<lambda>i. step (Sched i) \<sigma> \<noteq> Blocked) [0..<length (procs \<sigma>)] = [1] \<and>
       procs \<sigma> ! 3 = Worker 1 \<and> buf (ch (heap \<sigma> ! 1)) = [] \<and>
       cb_calls (heap \<sigma> ! 1) = [0..<66] \<and>
       (case exec ([Sched 1, Sched 1, Sched 70] @ replicate 5 (Sched 71) @ [Sched 3]) \<sigma> of
          Ok \<sigma>' \<Rightarrow> procs \<sigma>' ! 71 = Finished (Ret_Publish None) \<and>
                   cb_calls (heap \<sigma>' ! 1) = [0..<67]
        | Blocked \<Rightarrow> False | Panic \<Rightarrow> False)
   | Blocked \<Rightarrow> False | Panic \<Rightarrow> False"
  by code_simp


section \<open>What Close has drained when it returns nil\<close>






section \<open>Unsubscribe is final\<close>

lemma snapshot_of_resume [simp]: "snapshot_of (resume s k) = {}"
  by (simp add: resume_def split: option.splits)

lemma unsubscribed_step:
  assumes inv: "unsubscribed n u \<sigma>" and rg: "reg_inv \<sigma>" and st: "step e \<sigma> = Ok \<sigma>'"
  shows "unsubscribed n u \<sigma>'"
proof -
  from inv have
    sl: "u < length (heap \<sigma>)" and dn: "once (heap \<sigma> ! u) = Once_done"
    and ac: "\<And>a. a \<in> set (accepted (heap \<sigma> ! u)) \<Longrightarrow> called_at a < n"
    and sn: "\<And>j. j < length (procs \<sigma>) \<Longrightarrow> n \<le> j \<Longrightarrow> u \<notin> snapshot_of (procs \<sigma> ! j)"
    by (auto simp: unsubscribed_def)
  from rg dn have nr: "\<And>k. u \<notin> set (subs_of (subs \<sigma>) k)" by (auto simp: reg_inv_def)
  have keep: "unsubscribed n u \<sigma>'"
    if p: "procs \<sigma>' = (procs \<sigma>)[i := y] @ qs"
      and hl: "length (heap \<sigma>) \<le> length (heap \<sigma>')"
      and ho: "once (heap \<sigma>' ! u) = Once_done"
      and ha: "\<And>a. a \<in> set (accepted (heap \<sigma>' ! u)) \<Longrightarrow>
                 a \<in> set (accepted (heap \<sigma> ! u)) \<or> called_at a < n"
      and y: "i < length (procs \<sigma>) \<Longrightarrow> n \<le> i \<Longrightarrow>
                 snapshot_of y \<subseteq> snapshot_of (procs \<sigma> ! i) \<or> u \<notin> snapshot_of y"
      and q: "\<forall>q \<in> set qs. snapshot_of q = {}"
    for i y qs
    unfolding unsubscribed_def
  proof (intro conjI ballI allI impI)
    show "u < length (heap \<sigma>')" using sl hl by simp
    show "once (heap \<sigma>' ! u) = Once_done" by (rule ho)
  next
    fix a assume "a \<in> set (accepted (heap \<sigma>' ! u))"
    from ha[OF this] ac show "called_at a < n" by blast
  next
    fix j assume j: "j < length (procs \<sigma>')" "n \<le> j"
    show "u \<notin> snapshot_of (procs \<sigma>' ! j)"
    proof (cases "j < length (procs \<sigma>)")
      case True
      with p have e: "procs \<sigma>' ! j = (if j = i then y else procs \<sigma> ! j)"
        by (simp add: nth_append nth_update_if)
      show ?thesis
      proof (cases "j = i")
        case True
        with e y j(2) \<open>j < length (procs \<sigma>)\<close> sn[of i] show ?thesis by auto
      next
        case False
        with e sn[OF \<open>j < length (procs \<sigma>)\<close> j(2)] show ?thesis by simp
      qed
    next
      case False
      with j p have "procs \<sigma>' ! j = qs ! (j - length (procs \<sigma>))"
        "j - length (procs \<sigma>) < length qs"
        by (auto simp: nth_append)
      then have "procs \<sigma>' ! j \<in> set qs" by (metis nth_mem)
      with q show ?thesis by simp
    qed
  qed
  from st show ?thesis
  proof (cases rule: step_cases)
    case (Call c)
    then show ?thesis by (intro keep[of "length (procs \<sigma>)" "Called c" "[Called c]"]) (auto simp: list_update_beyond dn)
  next
    case (Sub_closed i subj)
    then show ?thesis using sl dn
      by (intro keep[of i _ "[]"]) (auto simp: nth_update_if split: if_splits)
  next
    case (Sub_ok i subj)
    then show ?thesis using sl dn
      by (intro keep[of i _ "[Worker (length (heap \<sigma>))]"]) (auto simp: nth_append)
  next
    case (Wrk_recv i s m rest)
    then show ?thesis using sl dn
      by (intro keep[of i _ "[]"]) (auto simp: nth_update_if split: if_splits)
  next
    case (Wrk_exit i s)
    then show ?thesis using sl dn
      by (intro keep[of i _ "[]"]) (auto simp: nth_update_if split: if_splits)
  next
    case (Hnd_ret i s m)
    then show ?thesis using sl dn
      by (intro keep[of i _ "[]"]) (auto simp: nth_update_if split: if_splits)
  next
    case (Pub_closed i subj msg)
    then show ?thesis using sl dn
      by (intro keep[of i _ "[]"]) (auto simp: nth_update_if split: if_splits)
  next
    case (Pub_snap i subj msg)
    then show ?thesis using sl dn nr[of subj]
      by (intro keep[of i _ "[]"]) auto
  next
    case (Pub_ret i msg)
    then show ?thesis using sl dn
      by (intro keep[of i _ "[]"]) (auto simp: nth_update_if split: if_splits)
  next
    case (Enq_lock i s rest msg)
    then show ?thesis using sl dn sn[of i]
      by (intro keep[of i _ "[]"]) (auto simp: nth_update_if called_at_def split: if_splits)
  next
    case (Enq_send i s msg rest)
    then show ?thesis using sl dn
      by (intro keep[of i _ "[]"]) (auto simp: nth_update_if split: if_splits)
  next
    case (Enq_spawn i s msg rest)
    then show ?thesis using sl dn
      by (intro keep[of i _ "[Sender s msg]"]) auto
  next
    case (Snd_abort i s msg)
    then show ?thesis using sl dn
      by (intro keep[of i _ "[]"]) (auto simp: nth_update_if split: if_splits)
  next
    case (Snd_send i s msg)
    then show ?thesis using sl dn
      by (intro keep[of i _ "[]"]) (auto simp: nth_update_if split: if_splits)
  next
    case (Uns_done i s k)
    then show ?thesis using sl dn
      by (intro keep[of i _ "[]"]) (auto simp: nth_update_if split: if_splits)
  next
    case (Uns_first i s k)
    then show ?thesis using sl dn
      by (intro keep[of i _ "[]"]) (auto simp: nth_update_if split: if_splits)
  next
    case (Uns_close i s k)
    then show ?thesis using sl dn
      by (intro keep[of i _ "[]"]) (auto simp: nth_update_if split: if_splits)
  next
    case (Cls_closed i ord)
    then show ?thesis using sl dn
      by (intro keep[of i _ "[]"]) (auto simp: nth_update_if split: if_splits)
  next
    case (Cls_first i ord keys)
    then show ?thesis using sl dn
      by (intro keep[of i _ "[]"]) (auto simp: nth_update_if split: if_splits)
  next
    case (Cls_end i)
    then show ?thesis using sl dn
      by (intro keep[of i _ "[]"]) (auto simp: nth_update_if split: if_splits)
  next
    case (Cls_done i)
    then show ?thesis using sl dn
      by (intro keep[of i _ "[]"]) (auto simp: nth_update_if split: if_splits)
  next
    case (Cls_ctx i)
    then show ?thesis using sl dn
      by (intro keep[of i _ "[]"]) (auto simp: nth_update_if split: if_splits)
  next
    case (Fire i)
    then show ?thesis using sl dn by (intro keep[of "length (procs \<sigma>)" Waiting "[]"]) (auto simp: list_update_beyond)
  qed
qed

lemma unsubscribed_exec:
  assumes "invs \<sigma>0" and "unsubscribed n s \<sigma>0" and "exec es \<sigma>0 = Ok \<sigma>"
  shows "invs \<sigma> \<and> unsubscribed n s \<sigma>"
proof (rule exec_invariant[where I = "\<lambda>\<sigma>. invs \<sigma> \<and> unsubscribed n s \<sigma>", OF assms(3)])
  show "invs \<sigma>0 \<and> unsubscribed n s \<sigma>0" using assms(1,2) by simp
next
  fix e and \<sigma> \<sigma>' :: "'a state"
  assume a: "invs \<sigma> \<and> unsubscribed n s \<sigma>" and st: "step e \<sigma> = Ok \<sigma>'"
  from a have "reg_inv \<sigma>" by (simp add: invs_def)
  with a st show "invs \<sigma>' \<and> unsubscribed n s \<sigma>'"
    using invs_step unsubscribed_step by blast
qed

lemma unsubscribed_returned:
  assumes inv: "invs \<sigma>" and u: "u < length (procs \<sigma>)"
    and r: "procs \<sigma> ! u = Finished (Ret_Unsubscribe s)"
  shows "unsubscribed (length (procs \<sigma>)) s \<sigma>"
proof -
  from u r have m: "Finished (Ret_Unsubscribe s) \<in> set (procs \<sigma>)" by (metis nth_mem)
  from inv have wf: "wf \<sigma>" and un: "unsub_inv \<sigma>" and ti: "time_inv \<sigma>" by (simp_all add: invs_def)
  from wf m have sl: "s < length (heap \<sigma>)" by (force simp: wf_def)
  from un m have dn: "once (heap \<sigma> ! s) = Once_done" by (force simp: unsub_inv_def)
  from ti sl have "sub_time (length (procs \<sigma>)) (heap \<sigma> ! s)" by (simp add: time_inv_def)
  then have "\<forall>a \<in> set (accepted (heap \<sigma> ! s)). called_at a < length (procs \<sigma>)"
    by (fastforce simp: sub_time_def)
  with sl dn show ?thesis by (simp add: unsubscribed_def)
qed

lemma unsubscribed_bus_reached:
  "exec [Call (Call_Subscribe ''a''), Sched 0, Call (Call_Publish ''a'' 5), Sched 2, Sched 2,
         Sched 2, Sched 2, Call (Call_Unsubscribe 0), Sched 3, Sched 3] NewSubPub
     = Ok unsubscribed_bus"
  by (simp add: model_defs unsubscribed_bus_def)

lemma unsubscribed_bus_later_reached:
  "exec [Call (Call_Publish ''a'' 6), Sched 4, Sched 4, Sched 1, Sched 1, Sched 1]
     unsubscribed_bus = Ok unsubscribed_bus_later"
  by (simp add: model_defs unsubscribed_bus_def unsubscribed_bus_later_def)

text \<open>
  Claim C7: let a call of Unsubscribe on the handle \<open>s\<close> have returned in the reachable
  state \<open>\<sigma>0\<close>, and let \<open>\<sigma>\<close> be any state reached from there. A call of Publish made after
  \<open>\<sigma>0\<close> is an activity with an index from \<open>length (procs \<sigma>0)\<close> on. No such call has \<open>s\<close>
  in its copy of the slice of subscribers (the subscription left the map before its
  queue was closed), every call of enqueue accepted on \<open>s\<close> comes from a call of Publish
  made before \<open>\<sigma>0\<close>, and every message with which the handler of \<open>s\<close> has been called
  is the message of such an earlier call: messages in flight are still handled, later
  ones never reach the handler.
\<close>

theorem Unsubscribe_final:
  assumes "exec es NewSubPub = Ok \<sigma>0"
    and "u < length (procs \<sigma>0)" and "procs \<sigma>0 ! u = Finished (Ret_Unsubscribe s)"
    and "exec es' \<sigma>0 = Ok \<sigma>"
  shows "(\<forall>j < length (procs \<sigma>). length (procs \<sigma>0) \<le> j \<longrightarrow> s \<notin> snapshot_of (procs \<sigma> ! j)) \<and>
         (\<forall>a \<in> set (accepted (heap \<sigma> ! s)). called_at a < length (procs \<sigma>0)) \<and>
         (\<forall>k < length (cb_calls (heap \<sigma> ! s)).
              k < length (accepted (heap \<sigma> ! s)) \<and>
              cb_calls (heap \<sigma> ! s) ! k = fst (accepted (heap \<sigma> ! s) ! k) \<and>
              called_at (accepted (heap \<sigma> ! s) ! k) < length (procs \<sigma>0))"
proof -
  note inv0 = invs_reachable[OF assms(1)]
  from unsubscribed_exec[OF inv0 unsubscribed_returned[OF inv0 assms(2,3)] assms(4)]
  have inv: "invs \<sigma>" and un: "unsubscribed (length (procs \<sigma>0)) s \<sigma>" by simp_all
  from un have sl: "s < length (heap \<sigma>)"
    and ac: "\<forall>a \<in> set (accepted (heap \<sigma> ! s)). called_at a < length (procs \<sigma>0)"
    and sn: "\<forall>j < length (procs \<sigma>). length (procs \<sigma>0) \<le> j \<longrightarrow> s \<notin> snapshot_of (procs \<sigma> ! j)"
    by (simp_all add: unsubscribed_def)
  from inv sl have f: "sub_fifo (heap \<sigma> ! s)" by (simp add: invs_def fifo_inv_def)
  have "k < length (accepted (heap \<sigma> ! s)) \<and>
        cb_calls (heap \<sigma> ! s) ! k = fst (accepted (heap \<sigma> ! s) ! k) \<and>
        called_at (accepted (heap \<sigma> ! s) ! k) < length (procs \<sigma>0)"
    if k: "k < length (cb_calls (heap \<sigma> ! s))" for k
  proof -
    from handled_accepted[OF f k] have h: "k < length (accepted (heap \<sigma> ! s))"
      "cb_calls (heap \<sigma> ! s) ! k = fst (accepted (heap \<sigma> ! s) ! k)" by simp_all
    from h(1) have "accepted (heap \<sigma> ! s) ! k \<in> set (accepted (heap \<sigma> ! s))" by simp
    with ac h show ?thesis by blast
  qed
  with sn ac show ?thesis by blast
qed

theorem Unsubscribe_final_witness:
  "exec [Call (Call_Subscribe ''a''), Sched 0, Call (Call_Publish ''a'' 5), Sched 2, Sched 2,
         Sched 2, Sched 2, Call (Call_Unsubscribe 0), Sched 3, Sched 3] NewSubPub
     = Ok unsubscribed_bus \<and>
   procs unsubscribed_bus ! 3 = Finished (Ret_Unsubscribe 0) \<and>
   buf (ch (heap unsubscribed_bus ! 0)) = [5] \<and> length (procs unsubscribed_bus) = 4 \<and>
   exec [Call (Call_Publish ''a'' 6), Sched 4, Sched 4, Sched 1, Sched 1, Sched 1]
     unsubscribed_bus = Ok unsubscribed_bus_later \<and>
   procs unsubscribed_bus_later ! 4 = Finished (Ret_Publish None) \<and>
   cb_calls (heap unsubscribed_bus_later ! 0) = [5] \<and>
   map called_at (accepted (heap unsubscribed_bus_later ! 0)) = [2]"
proof -
  have l: "(3::nat) < length (procs unsubscribed_bus)"
    "procs unsubscribed_bus ! 3 = Finished (Ret_Unsubscribe 0)"
    by (simp_all add: unsubscribed_bus_def)
  from Unsubscribe_final[OF unsubscribed_bus_reached l unsubscribed_bus_later_reached]
       unsubscribed_bus_reached unsubscribed_bus_later_reached l
  show ?thesis
    by (simp add: unsubscribed_bus_def unsubscribed_bus_later_def called_at_def)
qed


section \<open>First in, first out for every subscriber\<close>














end
